theory Spec2Isabelle
  imports Complex_Main "HOL-Library.Sublist" "HOL-Library.Log_Nat"
begin

section \<open>The icon generator \<^verbatim>\<open>generate_icon.py\<close>\<close>

text \<open>
  The script has two functions: \<^verbatim>\<open>create_claudius_icon\<close> draws the icon through
  Pillow's \<^verbatim>\<open>ImageDraw\<close> and \<^verbatim>\<open>create_icns\<close> resizes it, stages the copies in an
  \<^verbatim>\<open>.iconset\<close> directory, runs \<^verbatim>\<open>iconutil\<close> and removes the directory. Both are
  embedded below in the order of the source. What belongs to Pillow, to the operating
  system or to the host (the resampling filter, the glyph and ellipse rasterisers, the
  installed fonts, the C library's cosine and sine, the packaging tool) is a field of
  the record \<open>host\<close>: the script's own arithmetic, control flow, strings and error
  propagation are modelled as written.
\<close>

subsection \<open>Errors\<close>

datatype error =
    ValueError
  | FileNotFoundError
  | FileExistsError
  | NotADirectoryError
  | IsADirectoryError
  | OSError
  | CalledProcessError int

subsection \<open>Images\<close>

type_synonym rgba = "int \<times> int \<times> int \<times> int"

record image =
  width :: int
  height :: int
  pixels :: "int \<times> int \<Rightarrow> rgba"

subsection \<open>The file system\<close>

text \<open>
  A flat name space: a path, as the string the script passes, is absent, a directory, a
  symbolic link to a directory, or a file. Paths are compared as strings (no
  normalisation) and the existence of parent directories is not tracked. A path under a
  link to a directory names what the script reaches through the link.
\<close>

datatype file_content = PNG image | Bytes string

datatype node = Dir | DirLink | File file_content

text \<open>What \<^verbatim>\<open>os.path.isdir\<close> accepts: it follows links.\<close>

definition dir_like :: "node option \<Rightarrow> bool" where
  "dir_like n = (n = Some Dir \<or> n = Some DirLink)"

type_synonym fs = "string \<Rightarrow> node option"

datatype proc_result = NotInstalled | Exit int fs

subsection \<open>Fonts, colours and drawing calls\<close>

text \<open>
  A font object is either a TrueType font loaded from a file at a pixel size or
  Pillow's built-in default font. A colour is the tuple the script passes as \<^verbatim>\<open>fill\<close> or
  \<^verbatim>\<open>outline\<close>, with three or four components. A drawing call is one call of a method of
  \<^verbatim>\<open>ImageDraw.Draw(img)\<close> with the arguments the script gives it:
  \<^verbatim>\<open>draw.line([p0, p1], fill)\<close>, \<^verbatim>\<open>draw.ellipse([x0, y0, x1, y1], fill, outline, width)\<close>
  and \<^verbatim>\<open>draw.text(xy, text, font, fill)\<close>. Ellipse coordinates are Python numbers, integers
  or floats, hence rationals.
\<close>

datatype font = TrueType string int | DefaultFont

datatype colour = RGB int int int | RGBA int int int int

datatype draw_call =
    Line "int \<times> int" "int \<times> int" colour
  | Ellipse "rat \<times> rat \<times> rat \<times> rat" "colour option" "colour option" int
  | Text "int \<times> int" string font colour

subsection \<open>The host\<close>

text \<open>
  \<open>resample im (w, h)\<close> is the pixel buffer Pillow's Lanczos filter computes when \<open>im\<close>
  is resized to \<open>w \<times> h\<close>; \<open>iconutil argv fs\<close> is what running the packaging
  tool with the argument vector \<open>argv\<close> does to the file system \<open>fs\<close>:
  \<open>NotInstalled\<close> when there is no such executable, otherwise its exit status and the
  file system it leaves. \<open>font_file_loads path n\<close> says whether
  \<^verbatim>\<open>ImageFont.truetype(path, n)\<close> returns a font on this host (otherwise it raises);
  \<open>textbbox f s\<close> is \<^verbatim>\<open>draw.textbbox((0, 0), s, font=f)\<close>; \<open>plot c im\<close> is the pixel buffer
  Pillow's rasteriser leaves when the call \<open>c\<close> is drawn on \<open>im\<close>; \<open>cos_double\<close> and
  \<open>sin_double\<close> are \<^verbatim>\<open>math.cos\<close> and \<^verbatim>\<open>math.sin\<close> of the C library, from doubles to
  doubles.
\<close>

record host =
  resample :: "image \<Rightarrow> int \<times> int \<Rightarrow> int \<times> int \<Rightarrow> rgba"
  iconutil :: "string list \<Rightarrow> fs \<Rightarrow> proc_result"
  font_file_loads :: "string \<Rightarrow> int \<Rightarrow> bool"
  textbbox :: "font \<Rightarrow> string \<Rightarrow> int \<times> int \<times> int \<times> int"
  plot :: "draw_call \<Rightarrow> image \<Rightarrow> int \<times> int \<Rightarrow> rgba"
  cos_double :: "rat \<Rightarrow> rat"
  sin_double :: "rat \<Rightarrow> rat"

subsection \<open>Python floats\<close>

text \<open>
  A Python float is an IEEE 754 binary64 number, here the rational it denotes. Every
  arithmetic operation returns the exact result rounded to the nearest number with a
  53-bit significand, a tie going to the even significand. The exponent range is not
  bounded: overflow and underflow, which need magnitudes beyond \<open>2 ^ 1023\<close> or below
  \<open>2 ^ - 1022\<close>, are not modelled.
\<close>

text \<open>The exponent \<open>e\<close> with \<open>2 ^ e \<le> |x| < 2 ^ (e + 1)\<close>, for \<open>x \<noteq> 0\<close>.\<close>

definition expo :: "rat \<Rightarrow> int" where
  "expo x =
     (let k = bitlen (fst (quotient_of \<bar>x\<bar>)) - bitlen (snd (quotient_of \<bar>x\<bar>))
      in if 2 powi k \<le> \<bar>x\<bar> then k else k - 1)"

definition round_half_even :: "rat \<Rightarrow> int" where
  "round_half_even x =
     (let n = \<lfloor>x\<rfloor>; f = x - of_int n
      in if f < 1 / 2 then n else if 1 / 2 < f then n + 1 else if even n then n else n + 1)"

definition to_double :: "rat \<Rightarrow> rat" where
  "to_double x =
     (if x = 0 then 0
      else of_int (round_half_even (x / 2 powi (expo x - 52))) * 2 powi (expo x - 52))"

definition float_of_int :: "int \<Rightarrow> rat" where
  "float_of_int n = to_double (of_int n)"

definition fadd :: "rat \<Rightarrow> rat \<Rightarrow> rat" where
  "fadd a b = to_double (a + b)"

definition fsub :: "rat \<Rightarrow> rat \<Rightarrow> rat" where
  "fsub a b = to_double (a - b)"

definition fmul :: "rat \<Rightarrow> rat \<Rightarrow> rat" where
  "fmul a b = to_double (a * b)"

definition fdiv :: "rat \<Rightarrow> rat \<Rightarrow> rat" where
  "fdiv a b = to_double (a / b)"

text \<open>\<^verbatim>\<open>i / n\<close> on two integers: the quotient, correctly rounded.\<close>

definition int_truediv :: "int \<Rightarrow> int \<Rightarrow> rat" where
  "int_truediv i n = to_double (of_int i / of_int n)"

text \<open>\<^verbatim>\<open>int(x)\<close> on a float truncates towards zero.\<close>

definition int_of_float :: "rat \<Rightarrow> int" where
  "int_of_float x = (if 0 \<le> x then \<lfloor>x\<rfloor> else \<lceil>x\<rceil>)"

text \<open>The doubles that the literal \<^verbatim>\<open>0.55\<close> and \<^verbatim>\<open>math.pi\<close> denote.\<close>

definition lit_0_55 :: rat where
  "lit_0_55 = 2476979795053773 / 4503599627370496"

definition math_pi :: rat where
  "math_pi = 884279719003555 / 281474976710656"

subsection \<open>Drawing on an image\<close>

text \<open>
  \<^verbatim>\<open>Image.new('RGBA', (size, size), (0, 0, 0, 0))\<close>: Pillow refuses a negative side.
\<close>

definition new_image :: "int \<Rightarrow> error + image" where
  "new_image sz =
     (if sz < 0 then Inl ValueError
      else Inr \<lparr>width = sz, height = sz, pixels = (\<lambda>p. (0, 0, 0, 0))\<rparr>)"

text \<open>The pixel value a colour tuple stands for on an RGBA image.\<close>

definition ink :: "colour \<Rightarrow> rgba" where
  "ink c = (case c of RGB r g b \<Rightarrow> (r, g, b, 255) | RGBA r g b a \<Rightarrow> (r, g, b, a))"

text \<open>
  One drawing call. A horizontal line of width one sets, in its row, the pixels between
  its end points that lie on the image; an ellipse whose box has \<open>x1 < x0\<close> or \<open>y1 < y0\<close>
  is refused with \<^verbatim>\<open>ValueError\<close>; everything else is what the host's rasteriser draws.
\<close>

fun draw :: "host \<Rightarrow> draw_call \<Rightarrow> image \<Rightarrow> error + image" where
  "draw H (Line (x0, y0) (x1, y1) fill) im =
     (if y0 = y1
      then Inr (im\<lparr>pixels :=
             (\<lambda>(x, y). if y = y0 \<and> min x0 x1 \<le> x \<and> x \<le> max x0 x1 \<and>
                            0 \<le> x \<and> x < width im \<and> 0 \<le> y \<and> y < height im
                         then ink fill else pixels im (x, y))\<rparr>)
      else Inr (im\<lparr>pixels := plot H (Line (x0, y0) (x1, y1) fill) im\<rparr>))"
| "draw H (Ellipse (x0, y0, x1, y1) fill outline w) im =
     (if x1 < x0 \<or> y1 < y0 then Inl ValueError
      else Inr (im\<lparr>pixels := plot H (Ellipse (x0, y0, x1, y1) fill outline w) im\<rparr>))"
| "draw H (Text xy s f fill) im = Inr (im\<lparr>pixels := plot H (Text xy s f fill) im\<rparr>)"

text \<open>A sequence of calls, in order; the first exception ends it.\<close>

fun draw_all :: "host \<Rightarrow> draw_call list \<Rightarrow> image \<Rightarrow> error + image" where
  "draw_all H [] im = Inr im"
| "draw_all H (c # cs) im =
     (case draw H c im of Inl e \<Rightarrow> Inl e | Inr im' \<Rightarrow> draw_all H cs im')"

subsection \<open>\<^verbatim>\<open>create_claudius_icon\<close>\<close>

text \<open>
  The background loop \<^verbatim>\<open>for i in range(size)\<close>: the colour of row \<open>i\<close> and the calls
  of the loop.
\<close>

definition gradient_colour :: "int \<Rightarrow> int \<Rightarrow> colour" where
  "gradient_colour sz i =
     (let ratio = int_truediv i sz;
          r = int_of_float (fadd (float_of_int 88) (fmul (float_of_int 40) ratio));
          g = int_of_float (fadd (float_of_int 28) (fmul (float_of_int 20) ratio));
          b = int_of_float (fadd (float_of_int 108) (fmul (float_of_int 30) ratio))
      in RGBA r g b 255)"

definition gradient_calls :: "int \<Rightarrow> draw_call list" where
  "gradient_calls sz = map (\<lambda>i. Line (0, i) (sz, i) (gradient_colour sz i)) [0..sz - 1]"

definition gold :: colour where
  "gold = RGB 212 175 55"

definition dark_gold :: colour where
  "dark_gold = RGB 180 145 35"

text \<open>The two rings.\<close>

definition ring_calls :: "int \<Rightarrow> draw_call list" where
  "ring_calls sz =
     (let margin = sz div 10;
          outer_border = sz div 30;
          inner_border = sz div 40;
          inner_margin = margin + outer_border + sz div 50
      in [Ellipse (of_int margin, of_int margin, of_int (sz - margin), of_int (sz - margin))
            None (Some gold) outer_border,
          Ellipse (of_int inner_margin, of_int inner_margin,
                   of_int (sz - inner_margin), of_int (sz - inner_margin))
            None (Some dark_gold) inner_border])"

text \<open>
  The font. \<^verbatim>\<open>try: body except: handler\<close> with a bare \<^verbatim>\<open>except\<close> runs the handler on any
  exception of the body.
\<close>

definition try_except :: "error + 'a \<Rightarrow> error + 'a \<Rightarrow> error + 'a" where
  "try_except body handler = (case body of Inl e \<Rightarrow> handler | Inr v \<Rightarrow> Inr v)"

definition truetype :: "host \<Rightarrow> string \<Rightarrow> int \<Rightarrow> error + font" where
  "truetype H path n = (if font_file_loads H path n then Inr (TrueType path n) else Inl OSError)"

definition load_default :: "error + font" where
  "load_default = Inr DefaultFont"

definition times_ttc :: string where
  "times_ttc = ''/System/Library/Fonts/Times.ttc''"

definition times_new_roman_ttf :: string where
  "times_new_roman_ttf = ''/System/Library/Fonts/Supplemental/Times New Roman.ttf''"

definition font_size_of :: "int \<Rightarrow> int" where
  "font_size_of sz = int_of_float (fmul (float_of_int sz) lit_0_55)"

definition load_font :: "host \<Rightarrow> int \<Rightarrow> error + font" where
  "load_font H sz =
     try_except
       (let font_size = font_size_of sz
        in try_except (truetype H times_ttc font_size)
             (try_except (truetype H times_new_roman_ttf font_size) load_default))
       load_default"

text \<open>The letter: its shadow, then the letter itself.\<close>

definition glyph_calls :: "host \<Rightarrow> int \<Rightarrow> font \<Rightarrow> draw_call list" where
  "glyph_calls H sz font =
     (let center = sz div 2;
          text = ''C''
      in case textbbox H font text of
           (bbox0, bbox1, bbox2, bbox3) \<Rightarrow>
             let text_width = bbox2 - bbox0;
                 text_height = bbox3 - bbox1;
                 text_x = center - text_width div 2;
                 text_y = center - text_height div 2 - sz div 25;
                 shadow_offset = sz div 60
             in [Text (text_x + shadow_offset, text_y + shadow_offset) text font (RGBA 20 20 20 200),
                 Text (text_x, text_y) text font gold])"

text \<open>The dots: the angle and the call of iteration \<open>i\<close> of \<^verbatim>\<open>for i in range(num_dots)\<close>.\<close>

definition num_dots :: int where
  "num_dots = 24"

definition dot_angle :: "int \<Rightarrow> rat" where
  "dot_angle i =
     fsub (fmul (fmul (int_truediv i num_dots) (float_of_int 2)) math_pi)
          (fdiv math_pi (float_of_int 2))"

definition dot_call :: "host \<Rightarrow> int \<Rightarrow> int \<Rightarrow> draw_call" where
  "dot_call H sz i =
     (let center = sz div 2;
          margin = sz div 10;
          dot_radius = sz div 80;
          dot_distance = sz div 2 - margin - sz div 15;
          angle = dot_angle i;
          x = fadd (float_of_int center) (fmul (cos_double H angle) (float_of_int dot_distance));
          y = fadd (float_of_int center) (fmul (sin_double H angle) (float_of_int dot_distance))
      in Ellipse (fsub x (float_of_int dot_radius), fsub y (float_of_int dot_radius),
                  fadd x (float_of_int dot_radius), fadd y (float_of_int dot_radius))
           (Some dark_gold) None 1)"

definition dot_calls :: "host \<Rightarrow> int \<Rightarrow> draw_call list" where
  "dot_calls H sz = map (dot_call H sz) [0..num_dots - 1]"

text \<open>The function, statement by statement.\<close>

definition create_claudius_icon :: "host \<Rightarrow> int \<Rightarrow> error + image" where
  "create_claudius_icon H sz =
     (case new_image sz of
        Inl e \<Rightarrow> Inl e
      | Inr img \<Rightarrow>
     (case draw_all H (gradient_calls sz @ ring_calls sz) img of
        Inl e \<Rightarrow> Inl e
      | Inr img1 \<Rightarrow>
     (case load_font H sz of
        Inl e \<Rightarrow> Inl e
      | Inr font \<Rightarrow> draw_all H (glyph_calls H sz font @ dot_calls H sz) img1)))"

subsection \<open>Python strings and paths\<close>

text \<open>
  \<^verbatim>\<open>str.replace(old, new)\<close>: every occurrence of \<open>old\<close>, found from the left and not
  overlapping an earlier one, becomes \<open>new\<close>. With the empty pattern Python puts
  \<open>new\<close> before every character and at the end.
\<close>

function replace_from :: "string \<Rightarrow> string \<Rightarrow> string \<Rightarrow> string" where
  "replace_from old new [] = []"
| "replace_from old new (c # cs) =
     (if old \<noteq> [] \<and> prefix old (c # cs)
      then new @ replace_from old new (drop (length old) (c # cs))
      else c # replace_from old new cs)"
  by pat_completeness auto
termination
  by (relation "measure (\<lambda>(old, new, s). length s)") auto

definition str_replace :: "string \<Rightarrow> string \<Rightarrow> string \<Rightarrow> string" where
  "str_replace s old new =
     (if old = [] then new @ concat (map (\<lambda>c. c # new) s) else replace_from old new s)"

text \<open>The decimal numeral an f-string prints for an integer.\<close>

definition digit_char :: "nat \<Rightarrow> char" where
  "digit_char d = ''0123456789'' ! d"

function str_nat :: "nat \<Rightarrow> string" where
  "str_nat n = (if n < 10 then [digit_char n] else str_nat (n div 10) @ [digit_char (n mod 10)])"
  by pat_completeness auto
termination
  by (relation "measure id") auto

declare str_nat.simps [simp del]

definition str_int :: "int \<Rightarrow> string" where
  "str_int i = (if i < 0 then CHR ''-'' # str_nat (nat (- i)) else str_nat (nat i))"

text \<open>\<^verbatim>\<open>os.path.join(a, b)\<close> of \<^verbatim>\<open>posixpath\<close>, for two components.\<close>

definition path_join :: "string \<Rightarrow> string \<Rightarrow> string" where
  "path_join a b =
     (if b \<noteq> [] \<and> hd b = CHR ''/'' then b
      else if a = [] \<or> last a = CHR ''/'' then a @ b
      else a @ ''/'' @ b)"

text \<open>\<open>under d q\<close>: the path \<open>q\<close> names something inside the directory \<open>d\<close>.\<close>

definition under :: "string \<Rightarrow> string \<Rightarrow> bool" where
  "under d q = strict_prefix (path_join d []) q"

subsection \<open>File-system operations\<close>

text \<open>
  \<^verbatim>\<open>os.makedirs(path, exist_ok=True)\<close>: an existing path is accepted when
  \<^verbatim>\<open>os.path.isdir\<close> holds of it, so a link to a directory passes.
\<close>

definition makedirs :: "string \<Rightarrow> fs \<Rightarrow> error + fs" where
  "makedirs p fs =
     (if p = [] then Inl FileNotFoundError
      else case fs p of
        None \<Rightarrow> Inr (fs(p \<mapsto> Dir))
      | Some Dir \<Rightarrow> Inr fs
      | Some DirLink \<Rightarrow> Inr fs
      | Some (File c) \<Rightarrow> Inl FileExistsError)"

text \<open>\<^verbatim>\<open>Image.save(path)\<close>: the file is created or overwritten.\<close>

definition save :: "image \<Rightarrow> string \<Rightarrow> fs \<Rightarrow> error + fs" where
  "save im p fs =
     (if p = [] then Inl FileNotFoundError
      else if dir_like (fs p) then Inl IsADirectoryError
      else Inr (fs(p \<mapsto> File (PNG im))))"

text \<open>
  \<^verbatim>\<open>shutil.rmtree(path)\<close>: the directory and everything inside it. On a symbolic link
  it raises \<^verbatim>\<open>OSError\<close> (``Cannot call rmtree on a symbolic link'') and removes nothing.
\<close>

definition rmtree :: "string \<Rightarrow> fs \<Rightarrow> error + fs" where
  "rmtree p fs =
     (case fs p of
        None \<Rightarrow> Inl FileNotFoundError
      | Some (File c) \<Rightarrow> Inl NotADirectoryError
      | Some DirLink \<Rightarrow> Inl OSError
      | Some Dir \<Rightarrow> Inr (\<lambda>q. if q = p \<or> under p q then None else fs q))"

text \<open>\<^verbatim>\<open>Image.resize((w, h), Image.Resampling.LANCZOS)\<close>.\<close>

definition resize :: "host \<Rightarrow> image \<Rightarrow> int \<times> int \<Rightarrow> error + image" where
  "resize H im wh =
     (if fst wh \<le> 0 \<or> snd wh \<le> 0 then Inl ValueError
      else Inr \<lparr>width = fst wh, height = snd wh, pixels = resample H im wh\<rparr>)"

subsection \<open>\<^verbatim>\<open>create_icns\<close>\<close>

definition sizes :: "int list" where
  "sizes = [16, 32, 64, 128, 256, 512, 1024]"

definition iconset_path_of :: "string \<Rightarrow> string" where
  "iconset_path_of output_path = str_replace output_path ''.icns'' ''.iconset''"

definition base_name :: "int \<Rightarrow> string" where
  "base_name sz = ''icon_'' @ str_int sz @ ''x'' @ str_int sz @ ''.png''"

definition retina_name :: "int \<Rightarrow> string" where
  "retina_name sz = ''icon_'' @ str_int sz @ ''x'' @ str_int sz @ ''@2x.png''"

text \<open>
  The body of the loop \<^verbatim>\<open>for size in sizes\<close>, one equation per iteration (\<open>sz\<close> is the
  loop variable \<^verbatim>\<open>size\<close>). An
  exception leaves the loop with the file system as it is at that point.
\<close>

fun stage_sizes :: "host \<Rightarrow> image \<Rightarrow> string \<Rightarrow> int list \<Rightarrow> fs \<Rightarrow> error \<times> fs + fs" where
  "stage_sizes H source_image iconset_path [] fs = Inr fs"
| "stage_sizes H source_image iconset_path (sz # rest) fs =
     (case resize H source_image (sz, sz) of
        Inl e \<Rightarrow> Inl (e, fs)
      | Inr resized \<Rightarrow>
     (case save resized (path_join iconset_path (base_name sz)) fs of
        Inl e \<Rightarrow> Inl (e, fs)
      | Inr fs1 \<Rightarrow>
          if sz \<le> 512 then
            (case resize H source_image (sz * 2, sz * 2) of
               Inl e \<Rightarrow> Inl (e, fs1)
             | Inr resized_2x \<Rightarrow>
            (case save resized_2x (path_join iconset_path (retina_name sz)) fs1 of
               Inl e \<Rightarrow> Inl (e, fs1)
             | Inr fs2 \<Rightarrow> stage_sizes H source_image iconset_path rest fs2))
          else stage_sizes H source_image iconset_path rest fs1))"

text \<open>
  The statements of \<^verbatim>\<open>create_icns\<close> up to, not including, the call of the packaging
  tool: the result is the file system the tool is started on.
\<close>

definition stage_iconset :: "host \<Rightarrow> image \<Rightarrow> string \<Rightarrow> fs \<Rightarrow> error \<times> fs + fs" where
  "stage_iconset H source_image output_path fs =
     (let iconset_path = iconset_path_of output_path in
      case makedirs iconset_path fs of
        Inl e \<Rightarrow> Inl (e, fs)
      | Inr fs1 \<Rightarrow> stage_sizes H source_image iconset_path sizes fs1)"

definition iconutil_argv :: "string \<Rightarrow> string list" where
  "iconutil_argv output_path =
     [''iconutil'', ''-c'', ''icns'', iconset_path_of output_path, ''-o'', output_path]"

text \<open>\<^verbatim>\<open>subprocess.run(argv, check=True)\<close>.\<close>

definition run_checked :: "host \<Rightarrow> string list \<Rightarrow> fs \<Rightarrow> error \<times> fs + fs" where
  "run_checked H argv fs =
     (case iconutil H argv fs of
        NotInstalled \<Rightarrow> Inl (FileNotFoundError, fs)
      | Exit rc fs' \<Rightarrow> if rc \<noteq> 0 then Inl (CalledProcessError rc, fs') else Inr fs')"

definition create_icns :: "host \<Rightarrow> image \<Rightarrow> string \<Rightarrow> fs \<Rightarrow> error \<times> fs + fs" where
  "create_icns H source_image output_path fs =
     (case stage_iconset H source_image output_path fs of
        Inl r \<Rightarrow> Inl r
      | Inr fs2 \<Rightarrow>
     (case run_checked H (iconutil_argv output_path) fs2 of
        Inl r \<Rightarrow> Inl r
      | Inr fs3 \<Rightarrow>
     (case rmtree (iconset_path_of output_path) fs3 of
        Inl e \<Rightarrow> Inl (e, fs3)
      | Inr fs4 \<Rightarrow> Inr fs4)))"

text \<open>The file system a call leaves, whether it returned or raised.\<close>

definition final_fs :: "error \<times> fs + fs \<Rightarrow> fs" where
  "final_fs r = (case r of Inl (e, fs) \<Rightarrow> fs | Inr fs \<Rightarrow> fs)"

text \<open>\<^verbatim>\<open>sep.join(segs)\<close>, to state what replacing every occurrence means.\<close>

fun str_join :: "string \<Rightarrow> string list \<Rightarrow> string" where
  "str_join sep [] = []"
| "str_join sep (s # ss) = (if ss = [] then s else s @ sep @ str_join sep ss)"

subsection \<open>The staged files\<close>

text \<open>The file names the export is expected to stage, written out.\<close>

definition base_files :: "string list" where
  "base_files = [''icon_16x16.png'', ''icon_32x32.png'', ''icon_64x64.png'',
     ''icon_128x128.png'', ''icon_256x256.png'', ''icon_512x512.png'', ''icon_1024x1024.png'']"

definition retina_files :: "string list" where
  "retina_files = [''icon_16x16@2x.png'', ''icon_32x32@2x.png'', ''icon_64x64@2x.png'',
     ''icon_128x128@2x.png'', ''icon_256x256@2x.png'', ''icon_512x512@2x.png'']"

text \<open>
  The state in which staging can succeed: the destination is not the empty string, the
  staging path is not taken by a file, and none of the thirteen target paths is a
  directory or a link to one.
\<close>

definition stageable :: "string \<Rightarrow> fs \<Rightarrow> bool" where
  "stageable output_path fs =
     (output_path \<noteq> [] \<and>
      (case fs (iconset_path_of output_path) of Some (File c) \<Rightarrow> False | _ \<Rightarrow> True) \<and>
      (\<forall>n \<in> set (base_files @ retina_files).
         \<not> dir_like (fs (path_join (iconset_path_of output_path) n))))"

text \<open>The writes of the loop as a list, in the order the loop makes them.\<close>

fun staged_entries :: "host \<Rightarrow> image \<Rightarrow> string \<Rightarrow> int list \<Rightarrow> (string \<times> image) list" where
  "staged_entries H source_image d [] = []"
| "staged_entries H source_image d (sz # rest) =
     (path_join d (base_name sz),
        \<lparr>width = sz, height = sz, pixels = resample H source_image (sz, sz)\<rparr>) #
     (if sz \<le> 512
      then [(path_join d (retina_name sz),
        \<lparr>width = sz * 2, height = sz * 2, pixels = resample H source_image (sz * 2, sz * 2)\<rparr>)]
      else []) @
     staged_entries H source_image d rest"

fun write_all :: "fs \<Rightarrow> (string \<times> image) list \<Rightarrow> fs" where
  "write_all fs [] = fs"
| "write_all fs ((q, im) # es) = write_all (fs(q \<mapsto> File (PNG im))) es"

text \<open>What a successful \<^verbatim>\<open>makedirs\<close> leaves.\<close>

definition with_dir :: "string \<Rightarrow> fs \<Rightarrow> fs" where
  "with_dir d fs = (if fs d = None then fs(d \<mapsto> Dir) else fs)"

subsection \<open>A concrete host and image\<close>

definition blank_image :: image where
  "blank_image = \<lparr>width = 1024, height = 1024, pixels = (\<lambda>p. (0, 0, 0, 0))\<rparr>"

text \<open>
  A host whose resampling filter records, in every pixel, the width of the image it was
  given and the size asked for, and whose packaging tool exits with \<open>rc\<close> and touches
  nothing. It has no font file; its rasteriser marks the anchor pixel of a text call
  with the font's size (0 for the default font) and draws nothing else; a glyph's box is
  as wide and high as the font's size (6 by 11 for the default font).
\<close>

definition probe_plot :: "draw_call \<Rightarrow> image \<Rightarrow> int \<times> int \<Rightarrow> rgba" where
  "probe_plot c im p =
     (case c of
        Text xy s f fill \<Rightarrow>
          if p = xy then (case f of TrueType path n \<Rightarrow> (n, 0, 0, 255) | DefaultFont \<Rightarrow> (0, 0, 0, 255))
          else pixels im p
      | _ \<Rightarrow> pixels im p)"

definition probe_host :: "int \<Rightarrow> host" where
  "probe_host rc =
     \<lparr>resample = (\<lambda>im wh p. (width im, fst wh, snd wh, 255)),
      iconutil = (\<lambda>argv fs. Exit rc fs),
      font_file_loads = (\<lambda>path n. False),
      textbbox = (\<lambda>f s. case f of TrueType path n \<Rightarrow> (0, 0, n, n) | DefaultFont \<Rightarrow> (0, 0, 6, 11)),
      plot = probe_plot,
      cos_double = (\<lambda>a. 1),
      sin_double = (\<lambda>a. 0)\<rparr>"

text \<open>The calls that \<open>draw\<close> accepts.\<close>

fun valid_call :: "draw_call \<Rightarrow> bool" where
  "valid_call (Ellipse (x0, y0, x1, y1) fill outline w) = (x0 \<le> x1 \<and> y0 \<le> y1)"
| "valid_call c = True"



section \<open>Properties of \<^verbatim>\<open>create_icns\<close>\<close>

lemma replace_from_skip:
  "\<not> prefix old (c # cs) \<Longrightarrow> replace_from old new (c # cs) = c # replace_from old new cs"
  by simp

lemma replace_from_hit:
  "old \<noteq> [] \<Longrightarrow> replace_from old new (old @ rest) = new @ replace_from old new rest"
  by (cases old) simp_all

lemma sublist_tail: "\<not> sublist p (c # s) \<Longrightarrow> \<not> sublist p s"
  by (meson sublist_Cons_right)

lemma icns_no_straddle:
  assumes "\<not> sublist ''.icns'' t" and "t \<noteq> []"
  shows "\<not> prefix ''.icns'' (t @ ''.icns'' @ rest)"
proof
  assume "prefix ''.icns'' (t @ ''.icns'' @ rest)"
  then consider "prefix ''.icns'' t"
    | us where "''.icns'' = t @ us" "prefix us (''.icns'' @ rest)"
    using prefix_append [of "''.icns''" t "''.icns'' @ rest"] by blast
  then show False
  proof cases
    case 1
    then show ?thesis using assms(1) prefix_imp_sublist by blast
  next
    case 2
    then show ?thesis using assms
      by (auto simp: Cons_eq_append_conv)
  qed
qed

lemma replace_from_absent:
  "\<not> sublist ''.icns'' s \<Longrightarrow> replace_from ''.icns'' new s = s"
proof (induction s)
  case Nil
  then show ?case by simp
next
  case (Cons c s)
  have "\<not> prefix ''.icns'' (c # s)"
    using Cons.prems prefix_imp_sublist by blast
  then have "replace_from ''.icns'' new (c # s) = c # replace_from ''.icns'' new s"
    by (rule replace_from_skip)
  moreover have "\<not> sublist ''.icns'' s"
    using Cons.prems by (rule sublist_tail)
  ultimately show ?case using Cons.IH by simp
qed

lemma replace_from_segment:
  "\<not> sublist ''.icns'' s \<Longrightarrow>
   replace_from ''.icns'' new (s @ ''.icns'' @ rest) = s @ new @ replace_from ''.icns'' new rest"
proof (induction s)
  case Nil
  show ?case using replace_from_hit [of "''.icns''" new rest] by simp
next
  case (Cons c s)
  have "\<not> prefix ''.icns'' (c # (s @ ''.icns'' @ rest))"
    using icns_no_straddle [of "c # s" rest] Cons.prems by simp
  then have "replace_from ''.icns'' new (c # (s @ ''.icns'' @ rest))
      = c # replace_from ''.icns'' new (s @ ''.icns'' @ rest)"
    by (rule replace_from_skip)
  moreover have "\<not> sublist ''.icns'' s"
    using Cons.prems by (rule sublist_tail)
  ultimately show ?case using Cons.IH by simp
qed

lemma replace_from_join:
  "\<forall>s \<in> set segs. \<not> sublist ''.icns'' s \<Longrightarrow>
   replace_from ''.icns'' new (str_join ''.icns'' segs) = str_join new segs"
proof (induction segs)
  case Nil
  then show ?case by simp
next
  case (Cons s segs)
  show ?case
  proof (cases "segs = []")
    case True
    then show ?thesis using Cons.prems by (simp add: replace_from_absent)
  next
    case False
    have "replace_from ''.icns'' new (s @ ''.icns'' @ str_join ''.icns'' segs)
        = s @ new @ replace_from ''.icns'' new (str_join ''.icns'' segs)"
      using Cons.prems by (intro replace_from_segment) simp
    then show ?thesis using False Cons by simp
  qed
qed

lemma path_join_nonempty: "b \<noteq> [] \<Longrightarrow> path_join a b \<noteq> []"
  by (auto simp: path_join_def)

lemma base_name_nonempty: "base_name sz \<noteq> []"
  by (simp add: base_name_def)

lemma retina_name_nonempty: "retina_name sz \<noteq> []"
  by (simp add: retina_name_def)

lemma stage_sizes_ok:
  "\<forall>sz \<in> set ss. 0 < sz \<Longrightarrow>
   \<forall>q \<in> fst ` set (staged_entries H src d ss). \<not> dir_like (fs q) \<Longrightarrow>
   stage_sizes H src d ss fs = Inr (write_all fs (staged_entries H src d ss))"
proof (induction ss arbitrary: fs)
  case Nil
  then show ?case by simp
next
  case (Cons sz ss)
  then show ?case
    by (auto simp: resize_def save_def path_join_nonempty base_name_nonempty
          retina_name_nonempty image_iff dir_like_def)
qed

lemma not_dir_before_write:
  "\<not> dir_like ((f(a \<mapsto> File c)) q) \<Longrightarrow> \<not> dir_like (f a) \<Longrightarrow> \<not> dir_like (f q)"
  by (auto simp: dir_like_def split: if_splits)

lemma stage_sizes_returns:
  "stage_sizes H src d ss fs = Inr fs' \<Longrightarrow>
   \<forall>q \<in> fst ` set (staged_entries H src d ss). \<not> dir_like (fs q)"
proof (induction ss arbitrary: fs)
  case Nil
  then show ?case by simp
next
  case (Cons sz ss)
  let ?b = "path_join d (base_name sz)" and ?r = "path_join d (retina_name sz)"
  let ?bi = "\<lparr>width = sz, height = sz, pixels = resample H src (sz, sz)\<rparr>"
  let ?ri = "\<lparr>width = sz * 2, height = sz * 2, pixels = resample H src (sz * 2, sz * 2)\<rparr>"
  let ?fs1 = "fs(?b \<mapsto> File (PNG ?bi))"
  from Cons.prems have b: "\<not> dir_like (fs ?b)"
    by (auto simp: resize_def save_def split: if_splits sum.splits)
  show ?case
  proof (cases "sz \<le> 512")
    case True
    from Cons.prems True b have r1: "\<not> dir_like (?fs1 ?r)"
      and rest: "stage_sizes H src d ss (?fs1(?r \<mapsto> File (PNG ?ri))) = Inr fs'"
      by (auto simp: resize_def save_def split: if_splits sum.splits)
    from r1 b have r: "\<not> dir_like (fs ?r)"
      by (rule not_dir_before_write)
    have "\<forall>q \<in> fst ` set (staged_entries H src d ss). \<not> dir_like (fs q)"
    proof
      fix q assume "q \<in> fst ` set (staged_entries H src d ss)"
      with Cons.IH [OF rest] have "\<not> dir_like ((?fs1(?r \<mapsto> File (PNG ?ri))) q)"
        by blast
      then have "\<not> dir_like (?fs1 q)" using r1 by (rule not_dir_before_write)
      then show "\<not> dir_like (fs q)" using b by (rule not_dir_before_write)
    qed
    with b r True show ?thesis by simp
  next
    case False
    from Cons.prems False b have rest: "stage_sizes H src d ss ?fs1 = Inr fs'"
      by (auto simp: resize_def save_def split: if_splits sum.splits)
    have "\<forall>q \<in> fst ` set (staged_entries H src d ss). \<not> dir_like (fs q)"
    proof
      fix q assume "q \<in> fst ` set (staged_entries H src d ss)"
      with Cons.IH [OF rest] have "\<not> dir_like (?fs1 q)"
        by blast
      then show "\<not> dir_like (fs q)" using b by (rule not_dir_before_write)
    qed
    with b False show ?thesis by simp
  qed
qed

lemma names_of_sizes:
  "map base_name sizes = base_files"
  "map retina_name (filter (\<lambda>sz. sz \<le> 512) sizes) = retina_files"
  by (simp_all add: sizes_def base_name_def retina_name_def str_int_def str_nat.simps
        digit_char_def base_files_def retina_files_def)

lemma path_join_plain:
  "n \<noteq> [] \<Longrightarrow> hd n \<noteq> CHR ''/'' \<Longrightarrow> path_join d n = path_join d [] @ n"
  by (simp add: path_join_def)

lemma path_join_inj:
  assumes "n \<noteq> []" "hd n \<noteq> CHR ''/''" "m \<noteq> []" "hd m \<noteq> CHR ''/''"
  shows "path_join d n = path_join d m \<longleftrightarrow> n = m"
  using assms by (simp add: path_join_plain)

lemma path_join_under:
  "n \<noteq> [] \<Longrightarrow> hd n \<noteq> CHR ''/'' \<Longrightarrow> under d (path_join d n)"
  by (simp add: under_def path_join_plain strict_prefix_def)

lemma under_irrefl: "\<not> under d d"
  by (auto simp: under_def path_join_def strict_prefix_def prefix_def)

lemma path_join_neq_dir:
  "n \<noteq> [] \<Longrightarrow> hd n \<noteq> CHR ''/'' \<Longrightarrow> path_join d n \<noteq> d"
  using path_join_under [of n d] under_irrefl [of d] by auto

lemma staged_names_plain:
  "n \<in> set (base_files @ retina_files) \<Longrightarrow> n \<noteq> [] \<and> hd n \<noteq> CHR ''/''"
  by (auto simp: base_files_def retina_files_def)

lemma staged_names_distinct: "distinct (base_files @ retina_files)"
  by (simp add: base_files_def retina_files_def)

lemma staged_paths_distinct: "distinct (map (path_join d) (base_files @ retina_files))"
proof -
  have "inj_on (path_join d) (set (base_files @ retina_files))"
    by (rule inj_onI) (metis path_join_inj staged_names_plain)
  then show ?thesis
    using staged_names_distinct by (simp only: distinct_map) 
qed

lemma write_all_other: "q \<notin> fst ` set es \<Longrightarrow> write_all fs es q = fs q"
  by (induction es arbitrary: fs) auto

lemma write_all_entry:
  "distinct (map fst es) \<Longrightarrow> (q, im) \<in> set es \<Longrightarrow> write_all fs es q = Some (File (PNG im))"
proof (induction es arbitrary: fs)
  case Nil
  then show ?case by simp
next
  case (Cons e es)
  then show ?case
    by (cases e) (auto simp: write_all_other image_iff)
qed

lemma staged_entries_paths:
  "map fst (staged_entries H src d ss)
     = concat (map (\<lambda>sz. path_join d (base_name sz) #
         (if sz \<le> 512 then [path_join d (retina_name sz)] else [])) ss)"
  by (induction ss) auto

lemma staged_entries_sizes_set:
  "fst ` set (staged_entries H src d sizes) = path_join d ` set (base_files @ retina_files)"
proof -
  have "set (map fst (staged_entries H src d sizes))
      = path_join d ` set (map base_name sizes @ map retina_name (filter (\<lambda>sz. sz \<le> 512) sizes))"
    unfolding staged_entries_paths by (auto simp: sizes_def)
  then show ?thesis by (simp only: names_of_sizes set_map)
qed

lemma staged_entries_sizes_distinct: "distinct (map fst (staged_entries H src d sizes))"
proof -
  have "map fst (staged_entries H src d sizes)
     = map (path_join d) [base_name 16, retina_name 16, base_name 32, retina_name 32,
         base_name 64, retina_name 64, base_name 128, retina_name 128, base_name 256,
         retina_name 256, base_name 512, retina_name 512, base_name 1024]"
    unfolding staged_entries_paths by (simp add: sizes_def)
  moreover have "distinct (map (path_join d) [base_name 16, retina_name 16, base_name 32, retina_name 32,
         base_name 64, retina_name 64, base_name 128, retina_name 128, base_name 256,
         retina_name 256, base_name 512, retina_name 512, base_name 1024])"
  proof -
    have "inj_on (path_join d) {n. n \<noteq> [] \<and> hd n \<noteq> CHR ''/''}"
      by (rule inj_onI) (simp add: path_join_inj)
    moreover have "distinct [base_name 16, retina_name 16, base_name 32, retina_name 32,
         base_name 64, retina_name 64, base_name 128, retina_name 128, base_name 256,
         retina_name 256, base_name 512, retina_name 512, base_name 1024]"
      by (simp add: base_name_def retina_name_def str_int_def str_nat.simps digit_char_def)
    moreover have "set [base_name 16, retina_name 16, base_name 32, retina_name 32,
         base_name 64, retina_name 64, base_name 128, retina_name 128, base_name 256,
         retina_name 256, base_name 512, retina_name 512, base_name 1024] \<subseteq> {n. n \<noteq> [] \<and> hd n \<noteq> CHR ''/''}"
      by (simp add: base_name_def retina_name_def)
    ultimately show ?thesis
      unfolding distinct_map by (blast intro: inj_on_subset)
  qed
  ultimately show ?thesis by simp
qed

lemma replace_from_nonempty: "new \<noteq> [] \<Longrightarrow> s \<noteq> [] \<Longrightarrow> replace_from old new s \<noteq> []"
  by (cases s) auto

lemma iconset_path_nonempty: "output_path \<noteq> [] \<Longrightarrow> iconset_path_of output_path \<noteq> []"
  by (simp add: iconset_path_of_def str_replace_def replace_from_nonempty)

lemma makedirs_stageable:
  "stageable output_path fs \<Longrightarrow>
   makedirs (iconset_path_of output_path) fs = Inr (with_dir (iconset_path_of output_path) fs)"
  by (auto simp: stageable_def makedirs_def with_dir_def iconset_path_nonempty
      split: option.splits node.splits)

lemma with_dir_stageable:
  "stageable output_path fs \<Longrightarrow>
   with_dir (iconset_path_of output_path) fs (iconset_path_of output_path)
     = (if fs (iconset_path_of output_path) = Some DirLink then Some DirLink else Some Dir)"
  by (auto simp: stageable_def with_dir_def split: option.splits node.splits)

lemma with_dir_other: "q \<noteq> d \<Longrightarrow> with_dir d fs q = fs q"
  by (simp add: with_dir_def)

lemma staged_path_neq_dir:
  assumes "q \<in> path_join d ` set (base_files @ retina_files)"
  shows "q \<noteq> d"
proof -
  from assms obtain n where n: "n \<in> set (base_files @ retina_files)" and q: "q = path_join d n"
    by (rule imageE)
  from staged_names_plain [OF n] have "path_join d n \<noteq> d"
    by (simp add: path_join_neq_dir)
  with q show ?thesis by simp
qed

lemma stage_iconset_ok:
  assumes "stageable output_path fs"
  shows "stage_iconset H src output_path fs
     = Inr (write_all (with_dir (iconset_path_of output_path) fs)
              (staged_entries H src (iconset_path_of output_path) sizes))"
proof -
  let ?d = "iconset_path_of output_path"
  have "\<forall>q \<in> fst ` set (staged_entries H src ?d sizes). \<not> dir_like (with_dir ?d fs q)"
  proof
    fix q assume "q \<in> fst ` set (staged_entries H src ?d sizes)"
    then have q: "q \<in> path_join ?d ` set (base_files @ retina_files)"
      by (simp only: staged_entries_sizes_set)
    then have "\<not> dir_like (fs q)" using assms by (auto simp: stageable_def)
    moreover have "q \<noteq> ?d" using q by (rule staged_path_neq_dir)
    ultimately show "\<not> dir_like (with_dir ?d fs q)" by (simp add: with_dir_other)
  qed
  moreover have "\<forall>sz \<in> set sizes. 0 < sz" by (simp add: sizes_def)
  ultimately have "stage_sizes H src ?d sizes (with_dir ?d fs)
      = Inr (write_all (with_dir ?d fs) (staged_entries H src ?d sizes))"
    by (intro stage_sizes_ok)
  then show ?thesis using makedirs_stageable [OF assms]
    by (simp add: stage_iconset_def Let_def)
qed

lemma stage_iconset_fails:
  assumes "\<not> stageable output_path fs"
  shows "\<exists>r. stage_iconset H src output_path fs = Inl r"
proof -
  let ?d = "iconset_path_of output_path"
  show ?thesis
  proof (cases "makedirs ?d fs")
    case (Inl e)
    then show ?thesis by (simp add: stage_iconset_def Let_def)
  next
    case (Inr fs1)
    then have ne: "output_path \<noteq> []" and nf: "case fs ?d of Some (File c) \<Rightarrow> False | _ \<Rightarrow> True"
      and fs1: "fs1 = with_dir ?d fs"
      by (auto simp: makedirs_def with_dir_def iconset_path_of_def str_replace_def
          split: if_splits option.splits node.splits)
    with assms obtain n where n: "n \<in> set (base_files @ retina_files)"
      and d: "dir_like (fs (path_join ?d n))"
      unfolding stageable_def by blast
    have "path_join ?d n \<noteq> ?d"
      using staged_names_plain [OF n] by (simp add: path_join_neq_dir)
    then have "dir_like (fs1 (path_join ?d n))"
      using d fs1 by (simp add: with_dir_other)
    moreover have "path_join ?d n \<in> fst ` set (staged_entries H src ?d sizes)"
      using n by (simp only: staged_entries_sizes_set) blast
    ultimately have "\<not> (\<exists>fs'. stage_sizes H src ?d sizes fs1 = Inr fs')"
      using stage_sizes_returns by blast
    then obtain r where "stage_sizes H src ?d sizes fs1 = Inl r"
      by (cases "stage_sizes H src ?d sizes fs1") auto
    then show ?thesis using Inr by (simp add: stage_iconset_def Let_def)
  qed
qed

lemma staged_fs_dir:
  assumes "stageable output_path fs"
  shows "write_all (with_dir (iconset_path_of output_path) fs)
           (staged_entries H src (iconset_path_of output_path) sizes) (iconset_path_of output_path)
         = (if fs (iconset_path_of output_path) = Some DirLink then Some DirLink else Some Dir)"
proof -
  let ?d = "iconset_path_of output_path"
  have "?d \<notin> fst ` set (staged_entries H src ?d sizes)"
    unfolding staged_entries_sizes_set using staged_path_neq_dir [of ?d ?d] by blast
  then show ?thesis
    using with_dir_stageable [OF assms] by (simp add: write_all_other)
qed

lemma staged_fs_file:
  assumes "q \<in> path_join d ` set (base_files @ retina_files)"
  shows "\<exists>im. (q, im) \<in> set (staged_entries H src d sizes) \<and>
           write_all fs1 (staged_entries H src d sizes) q = Some (File (PNG im))"
proof -
  from assms have "q \<in> fst ` set (staged_entries H src d sizes)"
    by (simp only: staged_entries_sizes_set)
  then obtain im where "(q, im) \<in> set (staged_entries H src d sizes)"
    by auto
  then show ?thesis
    using write_all_entry [OF staged_entries_sizes_distinct] by blast
qed

lemma staged_fs_other:
  assumes "q \<noteq> d" "q \<notin> path_join d ` set (base_files @ retina_files)"
  shows "write_all (with_dir d fs) (staged_entries H src d sizes) q = fs q"
  using assms by (simp add: write_all_other staged_entries_sizes_set with_dir_other)

lemma staged_paths_card: "card (path_join d ` set (base_files @ retina_files)) = 13"
proof -
  have "card (set (map (path_join d) (base_files @ retina_files)))
      = length (map (path_join d) (base_files @ retina_files))"
    using staged_paths_distinct by (rule distinct_card)
  then show ?thesis by (simp add: base_files_def retina_files_def)
qed

lemma staged_paths_under:
  assumes "q \<in> path_join d ` set (base_files @ retina_files)"
  shows "under d q"
proof -
  from assms obtain n where n: "n \<in> set (base_files @ retina_files)" and q: "q = path_join d n"
    by (rule imageE)
  from staged_names_plain [OF n] have "under d (path_join d n)"
    by (simp add: path_join_under)
  with q show ?thesis by simp
qed

text \<open>
  Claim C9. The staging path is the destination with every occurrence of \<^verbatim>\<open>.icns\<close>
  replaced by \<^verbatim>\<open>.iconset\<close>, wherever it stands: a destination cut at its occurrences
  into segments (none of which contains \<^verbatim>\<open>.icns\<close>) becomes the same segments joined by
  \<^verbatim>\<open>.iconset\<close>. A destination without the substring is its own staging path, and the
  packaging tool is then given the same path as input directory and as output file.
\<close>

theorem iconset_path_replaces_every_occurrence:
  "((\<forall>s \<in> set segs. \<not> sublist ''.icns'' s) \<longrightarrow>
      iconset_path_of (str_join ''.icns'' segs) = str_join ''.iconset'' segs) \<and>
   (\<not> sublist ''.icns'' output_path \<longrightarrow>
      iconset_path_of output_path = output_path \<and>
      iconutil_argv output_path = [''iconutil'', ''-c'', ''icns'', output_path, ''-o'', output_path])"
  by (simp add: iconset_path_of_def str_replace_def replace_from_join replace_from_absent
      iconutil_argv_def)

theorem iconset_path_replaces_every_occurrence_witness:
  "\<not> sublist ''.icns'' ''a'' \<and> \<not> sublist ''.icns'' ''/b'' \<and> \<not> sublist ''.icns'' [] \<and>
   iconset_path_of ''a.icns/b.icns'' = ''a.iconset/b.iconset'' \<and>
   \<not> sublist ''.icns'' ''AppIcon'' \<and>
   iconset_path_of ''AppIcon'' = ''AppIcon'' \<and>
   iconutil_argv ''AppIcon'' = [''iconutil'', ''-c'', ''icns'', ''AppIcon'', ''-o'', ''AppIcon'']"
  using iconset_path_replaces_every_occurrence [of "[''a'', ''/b'', '''']" "''AppIcon''"]
  by (simp add: sublist_Cons_right)

text \<open>
  Claim C1. From a state in which staging can succeed, the file system on which the
  packaging tool is started has the staging directory (the link, when the staging path
  was a link to a directory), and inside it a PNG file under
  each of the 7 base names and the 6 \<^verbatim>\<open>@2x\<close> names; the 13 paths are distinct, no
  other path has changed, and a staging directory that was empty or absent holds
  exactly 13 entries. From any other state staging raises and the tool is not run.
\<close>

theorem create_icns_stages_13_files:
  "(stageable output_path fs \<longrightarrow>
      (\<exists>fs'. stage_iconset H source_image output_path fs = Inr fs' \<and>
         fs' (iconset_path_of output_path)
           = (if fs (iconset_path_of output_path) = Some DirLink then Some DirLink else Some Dir) \<and>
         length base_files = 7 \<and> length retina_files = 6 \<and>
         distinct (map (path_join (iconset_path_of output_path)) (base_files @ retina_files)) \<and>
         (\<forall>n \<in> set (base_files @ retina_files).
            under (iconset_path_of output_path) (path_join (iconset_path_of output_path) n) \<and>
            (\<exists>im. fs' (path_join (iconset_path_of output_path) n) = Some (File (PNG im)))) \<and>
         (\<forall>q. q \<noteq> iconset_path_of output_path \<and>
              q \<notin> path_join (iconset_path_of output_path) ` set (base_files @ retina_files) \<longrightarrow>
              fs' q = fs q) \<and>
         ((\<forall>q. under (iconset_path_of output_path) q \<longrightarrow> fs q = None) \<longrightarrow>
            card {q. under (iconset_path_of output_path) q \<and> fs' q \<noteq> None} = 13))) \<and>
   (\<not> stageable output_path fs \<longrightarrow>
      (\<exists>r. stage_iconset H source_image output_path fs = Inl r \<and>
           create_icns H source_image output_path fs = Inl r))"
proof (intro conjI impI)
  let ?d = "iconset_path_of output_path"
  let ?P = "path_join ?d ` set (base_files @ retina_files)"
  let ?fs' = "write_all (with_dir ?d fs) (staged_entries H source_image ?d sizes)"
  assume st: "stageable output_path fs"
  have 1: "stage_iconset H source_image output_path fs = Inr ?fs'"
    using st by (rule stage_iconset_ok)
  have 2: "?fs' ?d = (if fs ?d = Some DirLink then Some DirLink else Some Dir)"
    using st by (rule staged_fs_dir)
  have 3: "length base_files = 7" and 8: "length retina_files = 6"
    by (simp_all add: base_files_def retina_files_def)
  have 4: "distinct (map (path_join ?d) (base_files @ retina_files))"
    by (rule staged_paths_distinct)
  have 5: "\<forall>n \<in> set (base_files @ retina_files).
            under ?d (path_join ?d n) \<and> (\<exists>im. ?fs' (path_join ?d n) = Some (File (PNG im)))"
  proof
    fix n assume "n \<in> set (base_files @ retina_files)"
    then have "path_join ?d n \<in> ?P" by blast
    then show "under ?d (path_join ?d n) \<and> (\<exists>im. ?fs' (path_join ?d n) = Some (File (PNG im)))"
      using staged_paths_under [of "path_join ?d n" ?d]
        staged_fs_file [of "path_join ?d n" ?d H source_image "with_dir ?d fs"] by blast
  qed
  have 6: "\<forall>q. q \<noteq> ?d \<and> q \<notin> ?P \<longrightarrow> ?fs' q = fs q"
    using staged_fs_other by blast
  have 7: "(\<forall>q. under ?d q \<longrightarrow> fs q = None) \<longrightarrow> card {q. under ?d q \<and> ?fs' q \<noteq> None} = 13"
  proof
    assume empty: "\<forall>q. under ?d q \<longrightarrow> fs q = None"
    have "{q. under ?d q \<and> ?fs' q \<noteq> None} = ?P"
    proof (intro set_eqI iffI)
      fix q assume "q \<in> {q. under ?d q \<and> ?fs' q \<noteq> None}"
      then have u: "under ?d q" and s: "?fs' q \<noteq> None" by auto
      from u have ne: "q \<noteq> ?d" using under_irrefl by blast
      show "q \<in> ?P"
      proof (rule ccontr)
        assume "q \<notin> ?P"
        with ne 6 have "?fs' q = fs q" by blast
        with empty u s show False by simp
      qed
    next
      fix q assume q: "q \<in> ?P"
      then have "under ?d q" by (rule staged_paths_under)
      moreover obtain im where "?fs' q = Some (File (PNG im))"
        using staged_fs_file [OF q, of H source_image "with_dir ?d fs"] by blast
      then have "?fs' q \<noteq> None" by simp
      ultimately show "q \<in> {q. under ?d q \<and> ?fs' q \<noteq> None}" by simp
    qed
    then show "card {q. under ?d q \<and> ?fs' q \<noteq> None} = 13"
      by (simp only: staged_paths_card)
  qed
  show "\<exists>fs'. stage_iconset H source_image output_path fs = Inr fs' \<and>
         fs' ?d = (if fs ?d = Some DirLink then Some DirLink else Some Dir) \<and>
         length base_files = 7 \<and> length retina_files = 6 \<and>
         distinct (map (path_join ?d) (base_files @ retina_files)) \<and>
         (\<forall>n \<in> set (base_files @ retina_files).
            under ?d (path_join ?d n) \<and> (\<exists>im. fs' (path_join ?d n) = Some (File (PNG im)))) \<and>
         (\<forall>q. q \<noteq> ?d \<and> q \<notin> ?P \<longrightarrow> fs' q = fs q) \<and>
         ((\<forall>q. under ?d q \<longrightarrow> fs q = None) \<longrightarrow> card {q. under ?d q \<and> fs' q \<noteq> None} = 13)"
    by (intro exI [of _ ?fs'] conjI) (fact 1 2 3 8 4 5 6 7)+
next
  assume "\<not> stageable output_path fs"
  then obtain r where "stage_iconset H source_image output_path fs = Inl r"
    using stage_iconset_fails by blast
  then show "\<exists>r. stage_iconset H source_image output_path fs = Inl r \<and>
           create_icns H source_image output_path fs = Inl r"
    by (simp add: create_icns_def)
qed

theorem create_icns_stages_13_files_witness:
  "stageable ''AppIcon.icns'' Map.empty \<and>
   (\<exists>fs'. stage_iconset (probe_host 0) blank_image ''AppIcon.icns'' Map.empty = Inr fs' \<and>
      fs' ''AppIcon.iconset'' = Some Dir \<and>
      (\<exists>im. fs' ''AppIcon.iconset/icon_16x16.png'' = Some (File (PNG im))) \<and>
      (\<exists>im. fs' ''AppIcon.iconset/icon_512x512@2x.png'' = Some (File (PNG im))) \<and>
      card {q. under ''AppIcon.iconset'' q \<and> fs' q \<noteq> None} = 13) \<and>
   \<not> stageable [] Map.empty \<and>
   (\<exists>r. create_icns (probe_host 0) blank_image [] Map.empty = Inl r)"
proof -
  have a: "stageable ''AppIcon.icns'' Map.empty"
    by (simp add: stageable_def dir_like_def)
  have b: "iconset_path_of ''AppIcon.icns'' = ''AppIcon.iconset''"
    by (simp add: iconset_path_of_def str_replace_def)
  have c: "\<not> stageable [] Map.empty"
    by (simp add: stageable_def dir_like_def)
  have n1: "''icon_16x16.png'' \<in> set (base_files @ retina_files)"
    and n2: "''icon_512x512@2x.png'' \<in> set (base_files @ retina_files)"
    by (simp_all add: base_files_def retina_files_def)
  have p1: "path_join ''AppIcon.iconset'' ''icon_16x16.png'' = ''AppIcon.iconset/icon_16x16.png''"
    and p2: "path_join ''AppIcon.iconset'' ''icon_512x512@2x.png''
               = ''AppIcon.iconset/icon_512x512@2x.png''"
    by (simp_all add: path_join_def)
  from create_icns_stages_13_files [of "''AppIcon.icns''" Map.empty "probe_host 0" blank_image] a
  obtain fs' where s: "stage_iconset (probe_host 0) blank_image ''AppIcon.icns'' Map.empty = Inr fs'"
    and d: "fs' ''AppIcon.iconset'' = Some Dir"
    and f: "\<forall>n \<in> set (base_files @ retina_files).
            \<exists>im. fs' (path_join ''AppIcon.iconset'' n) = Some (File (PNG im))"
    and k: "card {q. under ''AppIcon.iconset'' q \<and> fs' q \<noteq> None} = 13"
    unfolding b by auto
  from f n1 p1 have f1: "\<exists>im. fs' ''AppIcon.iconset/icon_16x16.png'' = Some (File (PNG im))"
    by metis
  from f n2 p2 have f2: "\<exists>im. fs' ''AppIcon.iconset/icon_512x512@2x.png'' = Some (File (PNG im))"
    by metis
  from create_icns_stages_13_files [of "[]" Map.empty "probe_host 0" blank_image] c
  have e: "\<exists>r. create_icns (probe_host 0) blank_image [] Map.empty = Inl r"
    by blast
  from a s d f1 f2 k c e show ?thesis by blast
qed

lemma staged_entries_base:
  "N \<in> set ss \<Longrightarrow>
   (path_join d (base_name N), \<lparr>width = N, height = N, pixels = resample H src (N, N)\<rparr>)
     \<in> set (staged_entries H src d ss)"
  by (induction ss) auto

lemma staged_entries_retina:
  "N \<in> set ss \<Longrightarrow> N \<le> 512 \<Longrightarrow>
   (path_join d (retina_name N),
      \<lparr>width = N * 2, height = N * 2, pixels = resample H src (N * 2, N * 2)\<rparr>)
     \<in> set (staged_entries H src d ss)"
  by (induction ss) auto

lemma staged_entries_dims:
  "(q, im) \<in> set (staged_entries H src d ss) \<Longrightarrow>
   \<exists>N \<in> set ss. (width im = N \<and> height im = N) \<or> (N \<le> 512 \<and> width im = N * 2 \<and> height im = N * 2)"
  by (induction ss) (auto split: if_splits)

lemma staged_entries_sizes_dims:
  assumes "(q, im) \<in> set (staged_entries H src d sizes)"
  shows "width im = height im \<and> width im \<le> 1024"
proof -
  from staged_entries_dims [OF assms] obtain N where "N \<in> set sizes"
    and "(width im = N \<and> height im = N) \<or> (N \<le> 512 \<and> width im = N * 2 \<and> height im = N * 2)"
    by blast
  then show ?thesis by (auto simp: sizes_def)
qed

lemma no_retina_1024:
  "path_join d (retina_name 1024) \<notin> path_join d ` set (base_files @ retina_files)"
proof
  assume "path_join d (retina_name 1024) \<in> path_join d ` set (base_files @ retina_files)"
  then obtain n where n: "n \<in> set (base_files @ retina_files)"
    and e: "path_join d (retina_name 1024) = path_join d n"
    by (rule imageE)
  have r: "retina_name 1024 = ''icon_1024x1024@2x.png''"
    by (simp add: retina_name_def str_int_def str_nat.simps digit_char_def)
  from staged_names_plain [OF n] e have "retina_name 1024 = n"
    by (simp add: path_join_inj r)
  with n r show False
    by (simp add: base_files_def retina_files_def)
qed

lemma retina_1024_neq_dir: "path_join d (retina_name 1024) \<noteq> d"
  by (rule path_join_neq_dir) (simp_all add: retina_name_def)

text \<open>
  Claim C10. After a successful staging, the base file of every resolution \<open>N\<close> holds
  the source image resized to \<open>N \<times> N\<close>, and for \<open>N \<le> 512\<close> the \<^verbatim>\<open>@2x\<close> file
  holds the source image (not the \<open>N \<times> N\<close> copy) resized to \<open>2N \<times> 2N\<close>. Every image
  file that staging wrote is square with side at most 1024, and no \<^verbatim>\<open>@2x\<close> file is
  written for 1024.
\<close>

theorem staged_images_resized_from_source:
  "stageable output_path fs \<longrightarrow>
   (\<exists>fs'. stage_iconset H source_image output_path fs = Inr fs' \<and>
      (\<forall>N \<in> set sizes.
         fs' (path_join (iconset_path_of output_path) (base_name N))
           = Some (File (PNG \<lparr>width = N, height = N,
                                pixels = resample H source_image (N, N)\<rparr>)) \<and>
         (N \<le> 512 \<longrightarrow>
            fs' (path_join (iconset_path_of output_path) (retina_name N))
              = Some (File (PNG \<lparr>width = N * 2, height = N * 2,
                                   pixels = resample H source_image (N * 2, N * 2)\<rparr>)))) \<and>
      (\<forall>q im. fs' q = Some (File (PNG im)) \<and> fs' q \<noteq> fs q \<longrightarrow>
         width im = height im \<and> width im \<le> 1024) \<and>
      fs' (path_join (iconset_path_of output_path) (retina_name 1024))
        = fs (path_join (iconset_path_of output_path) (retina_name 1024)))"
proof
  let ?d = "iconset_path_of output_path"
  let ?es = "staged_entries H source_image ?d sizes"
  let ?fs' = "write_all (with_dir ?d fs) ?es"
  assume st: "stageable output_path fs"
  have 1: "stage_iconset H source_image output_path fs = Inr ?fs'"
    using st by (rule stage_iconset_ok)
  have 2: "\<forall>N \<in> set sizes.
         ?fs' (path_join ?d (base_name N))
           = Some (File (PNG \<lparr>width = N, height = N,
                                pixels = resample H source_image (N, N)\<rparr>)) \<and>
         (N \<le> 512 \<longrightarrow>
            ?fs' (path_join ?d (retina_name N))
              = Some (File (PNG \<lparr>width = N * 2, height = N * 2,
                                   pixels = resample H source_image (N * 2, N * 2)\<rparr>)))"
  proof (intro ballI conjI impI)
    fix N assume N: "N \<in> set sizes"
    show "?fs' (path_join ?d (base_name N))
           = Some (File (PNG \<lparr>width = N, height = N,
                                pixels = resample H source_image (N, N)\<rparr>))"
      using staged_entries_sizes_distinct staged_entries_base [OF N]
      by (rule write_all_entry)
    assume "N \<le> 512"
    with N show "?fs' (path_join ?d (retina_name N))
              = Some (File (PNG \<lparr>width = N * 2, height = N * 2,
                                   pixels = resample H source_image (N * 2, N * 2)\<rparr>))"
      by (intro write_all_entry staged_entries_sizes_distinct staged_entries_retina)
  qed
  have 3: "\<forall>q im. ?fs' q = Some (File (PNG im)) \<and> ?fs' q \<noteq> fs q \<longrightarrow>
         width im = height im \<and> width im \<le> 1024"
  proof (intro allI impI)
    fix q im assume a: "?fs' q = Some (File (PNG im)) \<and> ?fs' q \<noteq> fs q"
    have "q \<noteq> ?d" using a staged_fs_dir [OF st, of H source_image]
      by (auto split: if_splits)
    moreover have "q = ?d \<or> q \<in> path_join ?d ` set (base_files @ retina_files)"
      using a staged_fs_other [of q ?d fs H source_image] by blast
    ultimately have "q \<in> path_join ?d ` set (base_files @ retina_files)" by simp
    from staged_fs_file [OF this, of H source_image "with_dir ?d fs"]
    obtain im' where "(q, im') \<in> set ?es" and "?fs' q = Some (File (PNG im'))"
      by blast
    with a have "(q, im) \<in> set ?es" by simp
    then show "width im = height im \<and> width im \<le> 1024"
      by (rule staged_entries_sizes_dims)
  qed
  have 4: "?fs' (path_join ?d (retina_name 1024)) = fs (path_join ?d (retina_name 1024))"
    using retina_1024_neq_dir no_retina_1024 by (rule staged_fs_other)
  show "\<exists>fs'. stage_iconset H source_image output_path fs = Inr fs' \<and>
      (\<forall>N \<in> set sizes.
         fs' (path_join ?d (base_name N))
           = Some (File (PNG \<lparr>width = N, height = N,
                                pixels = resample H source_image (N, N)\<rparr>)) \<and>
         (N \<le> 512 \<longrightarrow>
            fs' (path_join ?d (retina_name N))
              = Some (File (PNG \<lparr>width = N * 2, height = N * 2,
                                   pixels = resample H source_image (N * 2, N * 2)\<rparr>)))) \<and>
      (\<forall>q im. fs' q = Some (File (PNG im)) \<and> fs' q \<noteq> fs q \<longrightarrow>
         width im = height im \<and> width im \<le> 1024) \<and>
      fs' (path_join ?d (retina_name 1024)) = fs (path_join ?d (retina_name 1024))"
    by (intro exI [of _ ?fs'] conjI) (fact 1 2 3 4)+
qed

theorem staged_images_resized_from_source_witness:
  "stageable ''AppIcon.icns'' Map.empty \<and>
   (\<exists>fs'. stage_iconset (probe_host 0) blank_image ''AppIcon.icns'' Map.empty = Inr fs' \<and>
      fs' ''AppIcon.iconset/icon_16x16.png''
        = Some (File (PNG \<lparr>width = 16, height = 16, pixels = (\<lambda>p. (1024, 16, 16, 255))\<rparr>)) \<and>
      fs' ''AppIcon.iconset/icon_16x16@2x.png''
        = Some (File (PNG \<lparr>width = 32, height = 32, pixels = (\<lambda>p. (1024, 32, 32, 255))\<rparr>)) \<and>
      fs' ''AppIcon.iconset/icon_1024x1024@2x.png'' = None)"
proof -
  have a: "stageable ''AppIcon.icns'' Map.empty"
    by (simp add: stageable_def dir_like_def)
  have b: "iconset_path_of ''AppIcon.icns'' = ''AppIcon.iconset''"
    by (simp add: iconset_path_of_def str_replace_def)
  have n: "(16::int) \<in> set sizes"
    by (simp add: sizes_def)
  have p1: "path_join ''AppIcon.iconset'' (base_name 16) = ''AppIcon.iconset/icon_16x16.png''"
    and p2: "path_join ''AppIcon.iconset'' (retina_name 16) = ''AppIcon.iconset/icon_16x16@2x.png''"
    and p3: "path_join ''AppIcon.iconset'' (retina_name 1024)
               = ''AppIcon.iconset/icon_1024x1024@2x.png''"
    by (simp_all add: path_join_def base_name_def retina_name_def str_int_def str_nat.simps
          digit_char_def)
  have r: "resample (probe_host 0) blank_image (16, 16) = (\<lambda>p. (1024, 16, 16, 255))"
    "resample (probe_host 0) blank_image (16 * 2, 16 * 2) = (\<lambda>p. (1024, 32, 32, 255))"
    by (simp_all add: probe_host_def blank_image_def)
  from staged_images_resized_from_source
         [of "''AppIcon.icns''" Map.empty "probe_host 0" blank_image] a
  obtain fs' where s: "stage_iconset (probe_host 0) blank_image ''AppIcon.icns'' Map.empty = Inr fs'"
    and f: "\<forall>N \<in> set sizes.
         fs' (path_join ''AppIcon.iconset'' (base_name N))
           = Some (File (PNG \<lparr>width = N, height = N,
                                pixels = resample (probe_host 0) blank_image (N, N)\<rparr>)) \<and>
         (N \<le> 512 \<longrightarrow>
            fs' (path_join ''AppIcon.iconset'' (retina_name N))
              = Some (File (PNG \<lparr>width = N * 2, height = N * 2,
                                   pixels = resample (probe_host 0) blank_image (N * 2, N * 2)\<rparr>)))"
    and z: "fs' (path_join ''AppIcon.iconset'' (retina_name 1024))
              = Map.empty (path_join ''AppIcon.iconset'' (retina_name 1024))"
    unfolding b by blast
  from f n have "fs' (path_join ''AppIcon.iconset'' (base_name 16))
           = Some (File (PNG \<lparr>width = 16, height = 16,
                                pixels = resample (probe_host 0) blank_image (16, 16)\<rparr>))"
    and "fs' (path_join ''AppIcon.iconset'' (retina_name 16))
              = Some (File (PNG \<lparr>width = 16 * 2, height = 16 * 2,
                                   pixels = resample (probe_host 0) blank_image (16 * 2, 16 * 2)\<rparr>))"
    by auto
  then have f1: "fs' ''AppIcon.iconset/icon_16x16.png''
        = Some (File (PNG \<lparr>width = 16, height = 16, pixels = (\<lambda>p. (1024, 16, 16, 255))\<rparr>))"
    and f2: "fs' ''AppIcon.iconset/icon_16x16@2x.png''
        = Some (File (PNG \<lparr>width = 32, height = 32, pixels = (\<lambda>p. (1024, 32, 32, 255))\<rparr>))"
    unfolding p1 p2 r by simp_all
  from z have f3: "fs' ''AppIcon.iconset/icon_1024x1024@2x.png'' = None"
    unfolding p3 by simp
  from a s f1 f2 f3 show ?thesis by blast
qed

text \<open>
  What \<^verbatim>\<open>create_icns\<close> does once staging has succeeded. A missing tool or a non-zero
  exit status is raised to the caller with the file system exactly as the tool left it:
  nothing is removed and nothing is retried. After exit status 0, a staging path that is
  a real directory is removed with everything inside it, every other path untouched.
\<close>

lemma create_icns_after_staging:
  "stageable output_path fs \<longrightarrow>
   (case iconutil H (iconutil_argv output_path)
           (final_fs (stage_iconset H source_image output_path fs)) of
      NotInstalled \<Rightarrow>
        create_icns H source_image output_path fs
          = Inl (FileNotFoundError, final_fs (stage_iconset H source_image output_path fs))
    | Exit rc fs3 \<Rightarrow>
        (rc \<noteq> 0 \<longrightarrow>
           create_icns H source_image output_path fs = Inl (CalledProcessError rc, fs3)) \<and>
        (rc = 0 \<longrightarrow>
           final_fs (create_icns H source_image output_path fs) (iconset_path_of output_path)
             \<noteq> Some Dir \<and>
           (fs3 (iconset_path_of output_path) = Some Dir \<longrightarrow>
              (\<exists>fs4. create_icns H source_image output_path fs = Inr fs4 \<and>
                 fs4 (iconset_path_of output_path) = None \<and>
                 (\<forall>q. under (iconset_path_of output_path) q \<longrightarrow> fs4 q = None) \<and>
                 (\<forall>q. q \<noteq> iconset_path_of output_path \<and>
                      \<not> under (iconset_path_of output_path) q \<longrightarrow> fs4 q = fs3 q)))))"
proof
  assume st: "stageable output_path fs"
  let ?d = "iconset_path_of output_path"
  let ?fs2 = "write_all (with_dir ?d fs) (staged_entries H source_image ?d sizes)"
  have s: "stage_iconset H source_image output_path fs = Inr ?fs2"
    using st by (rule stage_iconset_ok)
  then have f: "final_fs (stage_iconset H source_image output_path fs) = ?fs2"
    by (simp add: final_fs_def)
  show "case iconutil H (iconutil_argv output_path)
           (final_fs (stage_iconset H source_image output_path fs)) of
      NotInstalled \<Rightarrow>
        create_icns H source_image output_path fs
          = Inl (FileNotFoundError, final_fs (stage_iconset H source_image output_path fs))
    | Exit rc fs3 \<Rightarrow>
        (rc \<noteq> 0 \<longrightarrow>
           create_icns H source_image output_path fs = Inl (CalledProcessError rc, fs3)) \<and>
        (rc = 0 \<longrightarrow>
           final_fs (create_icns H source_image output_path fs) ?d \<noteq> Some Dir \<and>
           (fs3 ?d = Some Dir \<longrightarrow>
              (\<exists>fs4. create_icns H source_image output_path fs = Inr fs4 \<and>
                 fs4 ?d = None \<and>
                 (\<forall>q. under ?d q \<longrightarrow> fs4 q = None) \<and>
                 (\<forall>q. q \<noteq> ?d \<and> \<not> under ?d q \<longrightarrow> fs4 q = fs3 q))))"
    unfolding f
    by (cases "iconutil H (iconutil_argv output_path) ?fs2")
       (auto simp: create_icns_def s run_checked_def rmtree_def final_fs_def
          split: option.splits node.splits)
qed

text \<open>
  Claim C2. The claim holds of a staging path that is a real directory, as the lemma
  above shows, but not of every state the function accepts: \<^verbatim>\<open>os.makedirs\<close> with
  \<^verbatim>\<open>exist_ok=True\<close> accepts a staging path that is a symbolic link to a directory, the
  thirteen files are staged through it, the tool exits with status 0, and
  \<^verbatim>\<open>shutil.rmtree\<close> then raises \<^verbatim>\<open>OSError\<close>: the call fails after a successful
  packaging and the link and the staged files stay.
\<close>

theorem cleanup_raises_on_linked_staging_directory:
  "\<exists>fs3. create_icns (probe_host 0) blank_image ''AppIcon.icns''
            [''AppIcon.iconset'' \<mapsto> DirLink] = Inl (OSError, fs3) \<and>
     fs3 ''AppIcon.iconset'' = Some DirLink \<and>
     (\<exists>im. fs3 ''AppIcon.iconset/icon_16x16.png'' = Some (File (PNG im)))"
proof -
  let ?fs = "[''AppIcon.iconset'' \<mapsto> DirLink] :: fs"
  let ?fs2 = "write_all (with_dir ''AppIcon.iconset'' ?fs)
     (staged_entries (probe_host 0) blank_image ''AppIcon.iconset'' sizes)"
  have b: "iconset_path_of ''AppIcon.icns'' = ''AppIcon.iconset''"
    by (simp add: iconset_path_of_def str_replace_def)
  have a: "stageable ''AppIcon.icns'' ?fs"
  proof -
    have "\<not> dir_like (?fs (path_join ''AppIcon.iconset'' n))"
      if "n \<in> set (base_files @ retina_files)" for n
    proof -
      from staged_names_plain [OF that] have "path_join ''AppIcon.iconset'' n \<noteq> ''AppIcon.iconset''"
        by (simp add: path_join_neq_dir)
      then show ?thesis by (simp add: dir_like_def)
    qed
    then show ?thesis by (simp add: stageable_def b)
  qed
  have s: "stage_iconset (probe_host 0) blank_image ''AppIcon.icns'' ?fs = Inr ?fs2"
    using stage_iconset_ok [OF a, of "probe_host 0" blank_image] by (simp only: b)
  have d: "?fs2 ''AppIcon.iconset'' = Some DirLink"
    using staged_fs_dir [OF a, of "probe_host 0" blank_image] by (simp add: b)
  have t: "iconutil (probe_host 0) argv fs = Exit 0 fs" for argv fs
    by (simp add: probe_host_def)
  have c: "create_icns (probe_host 0) blank_image ''AppIcon.icns'' ?fs = Inl (OSError, ?fs2)"
    by (simp add: create_icns_def s run_checked_def t rmtree_def b d)
  have "''icon_16x16.png'' \<in> set (base_files @ retina_files)"
    by (simp add: base_files_def)
  then have "path_join ''AppIcon.iconset'' ''icon_16x16.png''
      \<in> path_join ''AppIcon.iconset'' ` set (base_files @ retina_files)"
    by (rule imageI)
  then have "''AppIcon.iconset/icon_16x16.png''
      \<in> path_join ''AppIcon.iconset'' ` set (base_files @ retina_files)"
    by (simp add: path_join_def)
  from staged_fs_file [OF this, of "probe_host 0" blank_image "with_dir ''AppIcon.iconset'' ?fs"]
  have f: "\<exists>im. ?fs2 ''AppIcon.iconset/icon_16x16.png'' = Some (File (PNG im))"
    by blast
  from c d f show ?thesis by blast
qed

section \<open>Properties of the float operations\<close>

lemma quotient_of_pos:
  assumes "0 < x"
  shows "0 < fst (quotient_of x)" "0 < snd (quotient_of x)"
    "x = of_int (fst (quotient_of x)) / of_int (snd (quotient_of x))"
proof -
  obtain p q where pq: "quotient_of x = (p, q)" by (cases "quotient_of x")
  have q: "0 < q" using pq by (rule quotient_of_denom_pos)
  have x: "x = of_int p / of_int q" using pq by (rule quotient_of_div)
  have "0 < p"
  proof (rule ccontr)
    assume "\<not> 0 < p"
    then have "(of_int p :: rat) \<le> 0" by simp
    then have "of_int p / (of_int q :: rat) \<le> 0" using q by (simp add: divide_le_0_iff)
    with x assms show False by simp
  qed
  with q x pq show "0 < fst (quotient_of x)" "0 < snd (quotient_of x)"
    "x = of_int (fst (quotient_of x)) / of_int (snd (quotient_of x))" by simp_all
qed

lemma bitlen_bounds_rat:
  assumes "0 < (n::int)"
  shows "2 powi (bitlen n - 1) \<le> (of_int n :: rat)" "(of_int n :: rat) < 2 powi (bitlen n)"
proof -
  from bitlen_bounds [OF assms] have a: "2 ^ nat (bitlen n - 1) \<le> n" and b: "n < 2 ^ nat (bitlen n)"
    by simp_all
  have ge: "1 \<le> bitlen n" using assms by (simp add: bitlen_alt_def)
  have "(of_int (2 ^ nat (bitlen n - 1)) :: rat) \<le> of_int n" using a by (simp only: of_int_le_iff)
  then show "2 powi (bitlen n - 1) \<le> (of_int n :: rat)"
    using ge by (simp add: power_int_nonneg_exp)
  have "(of_int n :: rat) < of_int (2 ^ nat (bitlen n))" using b by (simp only: of_int_less_iff)
  then show "(of_int n :: rat) < 2 powi (bitlen n)"
    using ge by (simp add: power_int_nonneg_exp)
qed

lemma expo_bounds_pos:
  assumes "0 < x"
  shows "2 powi (expo x) \<le> x \<and> x < 2 powi (expo x + 1)"
proof -
  let ?p = "fst (quotient_of x)" and ?q = "snd (quotient_of x)"
  let ?k = "bitlen ?p - bitlen ?q"
  note pq = quotient_of_pos [OF assms]
  have P: "(0::rat) < of_int ?p" and Q: "(0::rat) < of_int ?q" using pq by simp_all
  note bp = bitlen_bounds_rat [OF pq(1)] and bq = bitlen_bounds_rat [OF pq(2)]
  have two: "(2::rat) \<noteq> 0" by simp
  have up: "x < 2 powi (?k + 1)"
  proof -
    have "of_int ?p * 2 powi (bitlen ?q - 1) < 2 powi (bitlen ?p) * (of_int ?q :: rat)"
      using bp(2) bq(1) P Q by (intro mult_less_le_imp_less) simp_all
    also have "2 powi (bitlen ?p) = (2::rat) powi (?k + 1) * 2 powi (bitlen ?q - 1)"
      by (simp add: power_int_add [symmetric])
    finally have "of_int ?p < 2 powi (?k + 1) * (of_int ?q :: rat)"
      by (simp add: mult.assoc mult.commute mult.left_commute)
    then have "of_int ?p / of_int ?q < (2::rat) powi (?k + 1)"
      using Q by (simp add: pos_divide_less_eq)
    with pq(3) show ?thesis by simp
  qed
  have low: "2 powi (?k - 1) \<le> x"
  proof -
    have "2 powi (bitlen ?p - 1) * (of_int ?q :: rat) \<le> of_int ?p * 2 powi (bitlen ?q)"
      using bp(1) bq(2) P Q by (intro mult_mono) simp_all
    moreover have "2 powi (bitlen ?p - 1) = (2::rat) powi (?k - 1) * 2 powi (bitlen ?q)"
      by (simp add: power_int_add [symmetric])
    ultimately have "2 powi (?k - 1) * (of_int ?q :: rat) \<le> of_int ?p"
      by (simp add: mult.assoc mult.commute mult.left_commute)
    then have "(2::rat) powi (?k - 1) \<le> of_int ?p / of_int ?q"
      using Q by (simp add: pos_le_divide_eq)
    with pq(3) show ?thesis by simp
  qed
  have ax: "\<bar>x\<bar> = x" using assms by simp
  show ?thesis
  proof (cases "2 powi ?k \<le> x")
    case True
    then have "expo x = ?k" by (simp add: expo_def ax Let_def)
    with True up show ?thesis by simp
  next
    case False
    then have "expo x = ?k - 1" by (simp add: expo_def ax Let_def)
    with False low show ?thesis by simp
  qed
qed

lemma pow2_less_iff: "(2::rat) powi a < 2 powi b \<longleftrightarrow> a < b"
proof
  assume l: "(2::rat) powi a < 2 powi b"
  show "a < b"
  proof (rule ccontr)
    assume "\<not> a < b"
    then have "b \<le> a" by simp
    then have "(2::rat) powi b \<le> 2 powi a" by (intro power_int_increasing) simp_all
    with l show False by simp
  qed
next
  assume "a < b"
  then show "(2::rat) powi a < 2 powi b" by (intro power_int_strict_increasing) simp_all
qed

lemma pow2_le_iff: "(2::rat) powi a \<le> 2 powi b \<longleftrightarrow> a \<le> b"
  using pow2_less_iff [of b a] by (auto simp: not_less [symmetric])


lemma expo_minus: "expo (- x) = expo x"
  by (simp add: expo_def)



lemma round_half_even_of_int: "round_half_even (of_int n) = n"
  by (simp add: round_half_even_def)

lemma round_half_even_disj:
  "(round_half_even x = \<lfloor>x\<rfloor> \<and> x - of_int \<lfloor>x\<rfloor> \<le> 1 / 2) \<or>
   (round_half_even x = \<lfloor>x\<rfloor> + 1 \<and> 1 / 2 \<le> x - of_int \<lfloor>x\<rfloor>)"
proof -
  consider "x - of_int \<lfloor>x\<rfloor> < 1 / 2" | "1 / 2 < x - of_int \<lfloor>x\<rfloor>" | "x - of_int \<lfloor>x\<rfloor> = 1 / 2"
    by linarith
  then show ?thesis
  proof cases
    case 1
    then have "round_half_even x = \<lfloor>x\<rfloor>" by (simp add: round_half_even_def Let_def)
    with 1 show ?thesis by simp
  next
    case 2
    then have "round_half_even x = \<lfloor>x\<rfloor> + 1" by (simp add: round_half_even_def Let_def)
    with 2 show ?thesis by simp
  next
    case 3
    then have "round_half_even x = (if even \<lfloor>x\<rfloor> then \<lfloor>x\<rfloor> else \<lfloor>x\<rfloor> + 1)"
      by (simp add: round_half_even_def Let_def)
    with 3 show ?thesis by (cases "even \<lfloor>x\<rfloor>") simp_all
  qed
qed

lemma round_half_even_cases:
  obtains "round_half_even x = \<lfloor>x\<rfloor>" "x - of_int \<lfloor>x\<rfloor> \<le> 1 / 2"
  | "round_half_even x = \<lfloor>x\<rfloor> + 1" "1 / 2 \<le> x - of_int \<lfloor>x\<rfloor>"
  using round_half_even_disj [of x] by blast


lemma round_half_even_mono:
  assumes "x \<le> y"
  shows "round_half_even x \<le> round_half_even y"
proof -
  have fl: "\<lfloor>x\<rfloor> \<le> \<lfloor>y\<rfloor>" using assms by (rule floor_mono)
  have lo: "\<lfloor>y\<rfloor> \<le> round_half_even y"
    by (cases y rule: round_half_even_cases) simp_all
  have hi: "round_half_even x \<le> \<lfloor>x\<rfloor> + 1"
    by (cases x rule: round_half_even_cases) simp_all
  show ?thesis
  proof (cases "\<lfloor>x\<rfloor> = \<lfloor>y\<rfloor>")
    case True
    then have "x - of_int \<lfloor>x\<rfloor> \<le> y - of_int \<lfloor>y\<rfloor>" using assms by simp
    then show ?thesis using True
      by (auto simp: round_half_even_def Let_def)
  next
    case False
    with fl have "\<lfloor>x\<rfloor> + 1 \<le> \<lfloor>y\<rfloor>" by simp
    with lo hi show ?thesis by linarith
  qed
qed

lemma round_half_even_minus: "round_half_even (- x) = - round_half_even x"
proof (cases "x = of_int \<lfloor>x\<rfloor>")
  case True
  then obtain n where "x = of_int n" ..
  then have "- x = of_int (- n)" by simp
  then show ?thesis using \<open>x = of_int n\<close> by (simp only: round_half_even_of_int)
next
  case False
  then have fl: "\<lfloor>- x\<rfloor> = - \<lfloor>x\<rfloor> - 1"
    by (simp add: floor_minus ceiling_altdef)
  show ?thesis
    unfolding round_half_even_def Let_def fl
    by (auto simp: algebra_simps)
qed

lemma to_double_zero: "to_double 0 = 0"
  by (simp add: to_double_def)

lemma to_double_minus: "to_double (- x) = - to_double x"
  by (simp add: to_double_def expo_minus round_half_even_minus)

lemma pow2_pos: "(0::rat) < 2 powi e"
  by simp

lemma pow2_split: "(2::rat) powi (a + b) = 2 powi a * 2 powi b"
  by (simp add: power_int_add)

lemma scaled_bounds:
  assumes "0 < x"
  shows "2 ^ 52 \<le> x / 2 powi (expo x - 52)" "x / 2 powi (expo x - 52) < 2 ^ 53"
proof -
  let ?e = "expo x" and ?u = "(2::rat) powi (expo x - 52)"
  have u: "0 < ?u" by simp
  from expo_bounds_pos [OF assms] have lo: "2 powi ?e \<le> x" and hi: "x < 2 powi (?e + 1)"
    by simp_all
  have "(2::rat) powi ?e = 2 powi 52 * ?u"
    by (simp only: pow2_split [symmetric]) simp
  then have "2 ^ 52 * ?u \<le> x" using lo by simp
  then show "2 ^ 52 \<le> x / ?u" using u by (simp add: pos_le_divide_eq)
  have "(2::rat) powi (?e + 1) = 2 powi (53 + (?e - 52))"
    by (rule arg_cong [where f = "\<lambda>n. 2 powi n"]) simp
  then have "(2::rat) powi (?e + 1) = 2 powi 53 * ?u"
    by (simp only: pow2_split)
  then have "x < 2 ^ 53 * ?u" using hi by simp
  then show "x / ?u < 2 ^ 53" using u by (simp add: pos_divide_less_eq)
qed

lemma significand_bounds:
  assumes "0 < x"
  shows "2 ^ 52 \<le> round_half_even (x / 2 powi (expo x - 52))"
    "round_half_even (x / 2 powi (expo x - 52)) \<le> 2 ^ 53"
proof -
  note b = scaled_bounds [OF assms]
  have "round_half_even (of_int (2 ^ 52)) \<le> round_half_even (x / 2 powi (expo x - 52))"
    using b(1) by (intro round_half_even_mono) simp
  then show "2 ^ 52 \<le> round_half_even (x / 2 powi (expo x - 52))"
    by (simp only: round_half_even_of_int)
  have "round_half_even (x / 2 powi (expo x - 52)) \<le> round_half_even (of_int (2 ^ 53))"
    using b(2) by (intro round_half_even_mono) simp
  then show "round_half_even (x / 2 powi (expo x - 52)) \<le> 2 ^ 53"
    by (simp only: round_half_even_of_int)
qed

lemma to_double_binade:
  assumes "0 < x"
  shows "2 powi (expo x) \<le> to_double x" "to_double x \<le> 2 powi (expo x + 1)"
proof -
  let ?e = "expo x" and ?u = "(2::rat) powi (expo x - 52)"
  let ?m = "round_half_even (x / ?u)"
  have u: "0 < ?u" by simp
  have td: "to_double x = of_int ?m * ?u" using assms by (simp add: to_double_def)
  note m = significand_bounds [OF assms]
  have "(of_int (2 ^ 52) :: rat) \<le> of_int ?m" using m(1) by (simp only: of_int_le_iff)
  then have "2 ^ 52 * ?u \<le> of_int ?m * ?u" using u by simp
  moreover have "(2::rat) powi ?e = 2 powi 52 * ?u"
    by (simp only: pow2_split [symmetric]) simp
  ultimately show "2 powi ?e \<le> to_double x" using td by simp
  have "(of_int ?m :: rat) \<le> of_int (2 ^ 53)" using m(2) by (simp only: of_int_le_iff)
  then have "of_int ?m * ?u \<le> 2 ^ 53 * ?u" using u by simp
  moreover have "(2::rat) powi (?e + 1) = 2 powi 53 * ?u"
    using pow2_split [of 53 "?e - 52"] by (simp add: add.commute)
  ultimately show "to_double x \<le> 2 powi (?e + 1)" using td by simp
qed

lemma to_double_pos: "0 < x \<Longrightarrow> 0 < to_double x"
  using to_double_binade(1) [of x] pow2_pos [of "expo x"] by linarith

lemma to_double_nonneg: "0 \<le> x \<Longrightarrow> 0 \<le> to_double x"
  using to_double_pos [of x] by (cases "x = 0") (simp_all add: to_double_zero less_eq_rat_def)

lemma expo_mono:
  assumes "0 < x" "x \<le> y"
  shows "expo x \<le> expo y"
proof -
  have y: "0 < y" using assms by simp
  from expo_bounds_pos [OF assms(1)] expo_bounds_pos [OF y] assms(2)
  have "(2::rat) powi (expo x) < 2 powi (expo y + 1)" by linarith
  then have "expo x < expo y + 1" by (simp only: pow2_less_iff)
  then show ?thesis by simp
qed

lemma to_double_mono_pos:
  assumes "0 < x" "x \<le> y"
  shows "to_double x \<le> to_double y"
proof -
  have y: "0 < y" using assms by simp
  show ?thesis
  proof (cases "expo x = expo y")
    case True
    let ?u = "(2::rat) powi (expo y - 52)"
    have u: "0 < ?u" by simp
    have "x / ?u \<le> y / ?u" using assms(2) u by (simp add: divide_right_mono)
    then have "round_half_even (x / ?u) \<le> round_half_even (y / ?u)"
      by (rule round_half_even_mono)
    then have "(of_int (round_half_even (x / ?u)) :: rat) \<le> of_int (round_half_even (y / ?u))"
      by (simp only: of_int_le_iff)
    then have "of_int (round_half_even (x / ?u)) * ?u \<le> of_int (round_half_even (y / ?u)) * ?u"
      using u by simp
    then show ?thesis using assms(1) y True by (simp add: to_double_def)
  next
    case False
    with expo_mono [OF assms] have "expo x + 1 \<le> expo y" by simp
    then have "(2::rat) powi (expo x + 1) \<le> 2 powi (expo y)" by (simp only: pow2_le_iff)
    with to_double_binade(2) [OF assms(1)] to_double_binade(1) [OF y] show ?thesis by linarith
  qed
qed

lemma to_double_mono:
  assumes "x \<le> y"
  shows "to_double x \<le> to_double y"
proof -
  consider "0 < x" | "x \<le> 0" "0 \<le> y" | "y < 0" using assms by linarith
  then show ?thesis
  proof cases
    case 1
    then show ?thesis using assms by (rule to_double_mono_pos)
  next
    case 2
    have "0 \<le> to_double (- x)" using 2(1) by (intro to_double_nonneg) simp
    then have "to_double x \<le> 0" by (simp add: to_double_minus)
    moreover have "0 \<le> to_double y" using 2(2) by (rule to_double_nonneg)
    ultimately show ?thesis by simp
  next
    case 3
    then have "to_double (- y) \<le> to_double (- x)" using assms by (intro to_double_mono_pos) simp_all
    then show ?thesis by (simp add: to_double_minus)
  qed
qed







section \<open>Properties of \<^verbatim>\<open>create_claudius_icon\<close>\<close>

lemma draw_dims:
  "draw H c im = Inr im' \<Longrightarrow> width im' = width im \<and> height im' = height im"
  by (induction H c im rule: draw.induct) (auto split: if_splits)

lemma draw_valid: "valid_call c \<Longrightarrow> \<exists>im'. draw H c im = Inr im'"
  by (induction H c im rule: draw.induct) auto

lemma draw_all_valid:
  "\<forall>c \<in> set cs. valid_call c \<Longrightarrow>
   \<exists>im'. draw_all H cs im = Inr im' \<and> width im' = width im \<and> height im' = height im"
proof (induction cs arbitrary: im)
  case Nil
  then show ?case by simp
next
  case (Cons c cs)
  then obtain im1 where d: "draw H c im = Inr im1"
    using draw_valid [of c H im] by auto
  from Cons.IH [of im1] Cons.prems obtain im' where
    "draw_all H cs im1 = Inr im'" "width im' = width im1" "height im' = height im1"
    by auto
  with d draw_dims [OF d] show ?case by simp
qed


lemma gradient_calls_valid: "\<forall>c \<in> set (gradient_calls sz). valid_call c"
  by (auto simp: gradient_calls_def)

lemma div_const_bound:
  fixes sz :: int
  assumes "0 < c"
  shows "c * (sz div c) \<le> sz"
proof -
  have "c * (sz div c) + sz mod c = sz" by (rule mult_div_mod_eq)
  moreover have "0 \<le> sz mod c" using assms by simp
  ultimately show ?thesis by linarith
qed

lemma ring_calls_valid:
  assumes "0 \<le> sz"
  shows "\<forall>c \<in> set (ring_calls sz). valid_call c"
proof -
  have d10: "10 * (sz div 10) \<le> sz" by (rule div_const_bound) simp
  have d30: "30 * (sz div 30) \<le> sz" by (rule div_const_bound) simp
  have d50: "50 * (sz div 50) \<le> sz" by (rule div_const_bound) simp
  have "sz div 10 \<le> sz - sz div 10"
    using assms d10 by linarith
  then have a: "(of_int (sz div 10) :: rat) \<le> of_int (sz - sz div 10)"
    by (simp only: of_int_le_iff)
  have "sz div 10 + sz div 30 + sz div 50 \<le> sz - (sz div 10 + sz div 30 + sz div 50)"
    using assms d10 d30 d50 by linarith
  then have b: "(of_int (sz div 10 + sz div 30 + sz div 50) :: rat)
      \<le> of_int (sz - (sz div 10 + sz div 30 + sz div 50))"
    by (simp only: of_int_le_iff)
  from a b show ?thesis by (simp add: ring_calls_def Let_def)
qed

lemma glyph_calls_valid: "\<forall>c \<in> set (glyph_calls H sz font). valid_call c"
  by (auto simp: glyph_calls_def Let_def split: prod.splits)

lemma float_of_int_nonneg: "0 \<le> n \<Longrightarrow> 0 \<le> float_of_int n"
  by (simp add: float_of_int_def to_double_nonneg)

lemma fsub_le_fadd: "0 \<le> r \<Longrightarrow> fsub x r \<le> fadd x r"
  unfolding fsub_def fadd_def by (rule to_double_mono) simp

lemma dot_call_valid: "0 \<le> sz \<Longrightarrow> valid_call (dot_call H sz i)"
proof -
  assume "0 \<le> sz"
  then have "0 \<le> sz div 80" by simp
  then have "0 \<le> float_of_int (sz div 80)" by (rule float_of_int_nonneg)
  then show ?thesis by (simp add: dot_call_def Let_def fsub_le_fadd)
qed

lemma dot_calls_valid: "0 \<le> sz \<Longrightarrow> \<forall>c \<in> set (dot_calls H sz). valid_call c"
  by (simp add: dot_calls_def dot_call_valid)

lemma load_font_eq:
  "load_font H sz =
     Inr (if font_file_loads H times_ttc (font_size_of sz)
          then TrueType times_ttc (font_size_of sz)
          else if font_file_loads H times_new_roman_ttf (font_size_of sz)
          then TrueType times_new_roman_ttf (font_size_of sz)
          else DefaultFont)"
  by (simp add: load_font_def try_except_def truetype_def load_default_def Let_def)

lemma new_image_ok:
  "0 \<le> sz \<Longrightarrow> new_image sz = Inr \<lparr>width = sz, height = sz, pixels = (\<lambda>p. (0, 0, 0, 0))\<rparr>"
  by (simp add: new_image_def)

lemma icon_calls_valid:
  assumes "0 \<le> sz"
  shows "\<forall>c \<in> set (gradient_calls sz @ ring_calls sz). valid_call c"
    and "\<forall>c \<in> set (glyph_calls H sz font @ dot_calls H sz). valid_call c"
  using gradient_calls_valid [of sz] ring_calls_valid [OF assms]
    glyph_calls_valid [of H sz font] dot_calls_valid [OF assms, of H]
  by auto

lemma create_claudius_icon_ok:
  assumes "0 \<le> sz"
  shows "\<exists>img1 font im.
     draw_all H (gradient_calls sz @ ring_calls sz)
       \<lparr>width = sz, height = sz, pixels = (\<lambda>p. (0, 0, 0, 0))\<rparr> = Inr img1 \<and>
     load_font H sz = Inr font \<and>
     draw_all H (glyph_calls H sz font @ dot_calls H sz) img1 = Inr im \<and>
     create_claudius_icon H sz = Inr im \<and> width im = sz \<and> height im = sz"
proof -
  let ?img = "\<lparr>width = sz, height = sz, pixels = (\<lambda>p. (0, 0, 0, 0))\<rparr>"
  from draw_all_valid [OF icon_calls_valid(1) [OF assms], of H ?img]
  obtain img1 where 1: "draw_all H (gradient_calls sz @ ring_calls sz) ?img = Inr img1"
    and d1: "width img1 = sz" "height img1 = sz"
    by auto
  obtain font where 2: "load_font H sz = Inr font"
    by (simp add: load_font_eq)
  from draw_all_valid [OF icon_calls_valid(2) [OF assms, of H font], of H img1]
  obtain im where 3: "draw_all H (glyph_calls H sz font @ dot_calls H sz) img1 = Inr im"
    and d3: "width im = width img1" "height im = height img1"
    by auto
  have "create_claudius_icon H sz = Inr im"
    using 1 2 3 by (simp add: create_claudius_icon_def new_image_ok [OF assms])
  with 1 2 3 d1 d3 show ?thesis by auto
qed

text \<open>
  Claim C3. For every positive size the call returns, with no exception, an RGBA image
  whose width and height are the size: no ellipse of the rings or the dots has an
  inverted box and the font chain always yields a font.
\<close>

theorem renderer_returns_square_image:
  "0 < sz \<Longrightarrow>
   \<exists>im. create_claudius_icon H sz = Inr im \<and> width im = sz \<and> height im = sz"
  using create_claudius_icon_ok [of sz H] by auto

theorem renderer_returns_square_image_witness:
  "(0::int) < 64 \<and>
   (\<exists>im. create_claudius_icon (probe_host 0) 64 = Inr im \<and> width im = 64 \<and> height im = 64)"
  using renderer_returns_square_image [of 64 "probe_host 0"] by simp

lemma glyph_calls_eq:
  assumes "textbbox H font ''C'' = (b0, b1, b2, b3)"
  shows "glyph_calls H sz font =
     [Text (sz div 2 - (b2 - b0) div 2 + sz div 60,
            sz div 2 - (b3 - b1) div 2 - sz div 25 + sz div 60) ''C'' font (RGBA 20 20 20 200),
      Text (sz div 2 - (b2 - b0) div 2, sz div 2 - (b3 - b1) div 2 - sz div 25) ''C'' font
        (RGB 212 175 55)]"
  using assms by (simp add: glyph_calls_def Let_def gold_def)

lemma create_claudius_icon_steps:
  assumes "0 \<le> sz"
  shows "\<exists>img1 font.
     draw_all H (gradient_calls sz @ ring_calls sz)
       \<lparr>width = sz, height = sz, pixels = (\<lambda>p. (0, 0, 0, 0))\<rparr> = Inr img1 \<and>
     width img1 = sz \<and> height img1 = sz \<and>
     load_font H sz = Inr font \<and>
     create_claudius_icon H sz = draw_all H (glyph_calls H sz font @ dot_calls H sz) img1"
proof -
  let ?img = "\<lparr>width = sz, height = sz, pixels = (\<lambda>p. (0, 0, 0, 0))\<rparr>"
  from draw_all_valid [OF icon_calls_valid(1) [OF assms], of H ?img]
  obtain img1 where 1: "draw_all H (gradient_calls sz @ ring_calls sz) ?img = Inr img1"
    and d1: "width img1 = sz" "height img1 = sz"
    by auto
  obtain font where 2: "load_font H sz = Inr font"
    by (simp add: load_font_eq)
  have "create_claudius_icon H sz = draw_all H (glyph_calls H sz font @ dot_calls H sz) img1"
    using 1 2 by (simp add: create_claudius_icon_def new_image_ok [OF assms])
  with 1 2 d1 show ?thesis by blast
qed

text \<open>
  Claim C6. The font chain never raises: it yields the font of the first path if that
  loads, else the font of the second path if that loads, else the built-in default.
  On a host where no font file loads, the call still returns an image, and that image is
  the gradient and the rings, over which the host's rasteriser has drawn the shadow and
  then the letter \<^verbatim>\<open>C\<close> in the default font at the positions computed from the default
  font's box, and then the dots.
\<close>

theorem font_fallback_never_raises:
  "(\<exists>f. load_font H sz = Inr f) \<and>
   (font_file_loads H times_ttc (font_size_of sz) \<longrightarrow>
      load_font H sz = Inr (TrueType times_ttc (font_size_of sz))) \<and>
   (\<not> font_file_loads H times_ttc (font_size_of sz) \<and>
    font_file_loads H times_new_roman_ttf (font_size_of sz) \<longrightarrow>
      load_font H sz = Inr (TrueType times_new_roman_ttf (font_size_of sz))) \<and>
   (\<not> font_file_loads H times_ttc (font_size_of sz) \<and>
    \<not> font_file_loads H times_new_roman_ttf (font_size_of sz) \<longrightarrow>
      load_font H sz = Inr DefaultFont) \<and>
   (0 \<le> sz \<and> (\<forall>path n. \<not> font_file_loads H path n) \<longrightarrow>
      (\<exists>img1 im.
         draw_all H (gradient_calls sz @ ring_calls sz)
           \<lparr>width = sz, height = sz, pixels = (\<lambda>p. (0, 0, 0, 0))\<rparr> = Inr img1 \<and>
         create_claudius_icon H sz = Inr im \<and>
         (\<forall>b0 b1 b2 b3. textbbox H DefaultFont ''C'' = (b0, b1, b2, b3) \<longrightarrow>
            draw_all H (dot_calls H sz)
              (img1\<lparr>pixels :=
                 plot H (Text (sz div 2 - (b2 - b0) div 2,
                               sz div 2 - (b3 - b1) div 2 - sz div 25)
                           ''C'' DefaultFont (RGB 212 175 55))
                   (img1\<lparr>pixels :=
                      plot H (Text (sz div 2 - (b2 - b0) div 2 + sz div 60,
                                    sz div 2 - (b3 - b1) div 2 - sz div 25 + sz div 60)
                                ''C'' DefaultFont (RGBA 20 20 20 200)) img1\<rparr>)\<rparr>)
              = Inr im)))"
proof (intro conjI impI)
  show "\<exists>f. load_font H sz = Inr f" by (simp add: load_font_eq)
next
  assume "font_file_loads H times_ttc (font_size_of sz)"
  then show "load_font H sz = Inr (TrueType times_ttc (font_size_of sz))"
    by (simp add: load_font_eq)
next
  assume "\<not> font_file_loads H times_ttc (font_size_of sz) \<and>
    font_file_loads H times_new_roman_ttf (font_size_of sz)"
  then show "load_font H sz = Inr (TrueType times_new_roman_ttf (font_size_of sz))"
    by (simp add: load_font_eq)
next
  assume "\<not> font_file_loads H times_ttc (font_size_of sz) \<and>
    \<not> font_file_loads H times_new_roman_ttf (font_size_of sz)"
  then show "load_font H sz = Inr DefaultFont"
    by (simp add: load_font_eq)
next
  assume a: "0 \<le> sz \<and> (\<forall>path n. \<not> font_file_loads H path n)"
  then have sz: "0 \<le> sz" and f: "load_font H sz = Inr DefaultFont"
    by (simp_all add: load_font_eq)
  from create_claudius_icon_steps [OF sz, of H] f obtain img1 where
    1: "draw_all H (gradient_calls sz @ ring_calls sz)
          \<lparr>width = sz, height = sz, pixels = (\<lambda>p. (0, 0, 0, 0))\<rparr> = Inr img1"
    and 2: "create_claudius_icon H sz
          = draw_all H (glyph_calls H sz DefaultFont @ dot_calls H sz) img1"
    by auto
  from create_claudius_icon_ok [OF sz, of H] obtain im where
    3: "create_claudius_icon H sz = Inr im" by blast
  have 4: "\<forall>b0 b1 b2 b3. textbbox H DefaultFont ''C'' = (b0, b1, b2, b3) \<longrightarrow>
            draw_all H (dot_calls H sz)
              (img1\<lparr>pixels :=
                 plot H (Text (sz div 2 - (b2 - b0) div 2,
                               sz div 2 - (b3 - b1) div 2 - sz div 25)
                           ''C'' DefaultFont (RGB 212 175 55))
                   (img1\<lparr>pixels :=
                      plot H (Text (sz div 2 - (b2 - b0) div 2 + sz div 60,
                                    sz div 2 - (b3 - b1) div 2 - sz div 25 + sz div 60)
                                ''C'' DefaultFont (RGBA 20 20 20 200)) img1\<rparr>)\<rparr>)
              = Inr im"
  proof (intro allI impI)
    fix b0 b1 b2 b3 assume b: "textbbox H DefaultFont ''C'' = (b0, b1, b2, b3)"
    show "draw_all H (dot_calls H sz)
              (img1\<lparr>pixels :=
                 plot H (Text (sz div 2 - (b2 - b0) div 2,
                               sz div 2 - (b3 - b1) div 2 - sz div 25)
                           ''C'' DefaultFont (RGB 212 175 55))
                   (img1\<lparr>pixels :=
                      plot H (Text (sz div 2 - (b2 - b0) div 2 + sz div 60,
                                    sz div 2 - (b3 - b1) div 2 - sz div 25 + sz div 60)
                                ''C'' DefaultFont (RGBA 20 20 20 200)) img1\<rparr>)\<rparr>)
              = Inr im"
      using 2 3 by (simp add: glyph_calls_eq [OF b])
  qed
  from 1 3 4 show "\<exists>img1 im.
         draw_all H (gradient_calls sz @ ring_calls sz)
           \<lparr>width = sz, height = sz, pixels = (\<lambda>p. (0, 0, 0, 0))\<rparr> = Inr img1 \<and>
         create_claudius_icon H sz = Inr im \<and>
         (\<forall>b0 b1 b2 b3. textbbox H DefaultFont ''C'' = (b0, b1, b2, b3) \<longrightarrow>
            draw_all H (dot_calls H sz)
              (img1\<lparr>pixels :=
                 plot H (Text (sz div 2 - (b2 - b0) div 2,
                               sz div 2 - (b3 - b1) div 2 - sz div 25)
                           ''C'' DefaultFont (RGB 212 175 55))
                   (img1\<lparr>pixels :=
                      plot H (Text (sz div 2 - (b2 - b0) div 2 + sz div 60,
                                    sz div 2 - (b3 - b1) div 2 - sz div 25 + sz div 60)
                                ''C'' DefaultFont (RGBA 20 20 20 200)) img1\<rparr>)\<rparr>)
              = Inr im)"
    by blast
qed

theorem font_fallback_never_raises_witness:
  "(\<forall>path n. \<not> font_file_loads (probe_host 0) path n) \<and>
   \<not> font_file_loads (probe_host 0) times_ttc (font_size_of 64) \<and>
   \<not> font_file_loads (probe_host 0) times_new_roman_ttf (font_size_of 64) \<and>
   load_font (probe_host 0) 64 = Inr DefaultFont \<and>
   (0::int) \<le> 64 \<and>
   textbbox (probe_host 0) DefaultFont ''C'' = (0, 0, 6, 11) \<and>
   (\<exists>img1 im.
      draw_all (probe_host 0) (gradient_calls 64 @ ring_calls 64)
        \<lparr>width = 64, height = 64, pixels = (\<lambda>p. (0, 0, 0, 0))\<rparr> = Inr img1 \<and>
      create_claudius_icon (probe_host 0) 64 = Inr im \<and>
      draw_all (probe_host 0) (dot_calls (probe_host 0) 64)
        (img1\<lparr>pixels :=
           plot (probe_host 0) (Text (29, 25) ''C'' DefaultFont (RGB 212 175 55))
             (img1\<lparr>pixels :=
                plot (probe_host 0) (Text (30, 26) ''C'' DefaultFont (RGBA 20 20 20 200))
                  img1\<rparr>)\<rparr>) = Inr im)"
proof -
  have n: "\<forall>path n. \<not> font_file_loads (probe_host 0) path n"
    by (simp add: probe_host_def)
  have b: "textbbox (probe_host 0) DefaultFont ''C'' = (0, 0, 6, 11)"
    by (simp add: probe_host_def)
  from font_fallback_never_raises [of "probe_host 0" 64] n
  obtain img1 im where
    1: "draw_all (probe_host 0) (gradient_calls 64 @ ring_calls 64)
        \<lparr>width = 64, height = 64, pixels = (\<lambda>p. (0, 0, 0, 0))\<rparr> = Inr img1"
    and 2: "create_claudius_icon (probe_host 0) 64 = Inr im"
    and 3: "\<forall>b0 b1 b2 b3. textbbox (probe_host 0) DefaultFont ''C'' = (b0, b1, b2, b3) \<longrightarrow>
            draw_all (probe_host 0) (dot_calls (probe_host 0) 64)
              (img1\<lparr>pixels :=
                 plot (probe_host 0) (Text (64 div 2 - (b2 - b0) div 2,
                               64 div 2 - (b3 - b1) div 2 - 64 div 25)
                           ''C'' DefaultFont (RGB 212 175 55))
                   (img1\<lparr>pixels :=
                      plot (probe_host 0) (Text (64 div 2 - (b2 - b0) div 2 + 64 div 60,
                                    64 div 2 - (b3 - b1) div 2 - 64 div 25 + 64 div 60)
                                ''C'' DefaultFont (RGBA 20 20 20 200)) img1\<rparr>)\<rparr>)
              = Inr im"
    and 4: "load_font (probe_host 0) 64 = Inr DefaultFont"
    by auto
  from 3 [rule_format, OF b]
  have 5: "draw_all (probe_host 0) (dot_calls (probe_host 0) 64)
        (img1\<lparr>pixels :=
           plot (probe_host 0) (Text (29, 25) ''C'' DefaultFont (RGB 212 175 55))
             (img1\<lparr>pixels :=
                plot (probe_host 0) (Text (30, 26) ''C'' DefaultFont (RGBA 20 20 20 200))
                  img1\<rparr>)\<rparr>) = Inr im"
    by simp
  from n have 6: "\<not> font_file_loads (probe_host 0) times_ttc (font_size_of 64)"
    and 7: "\<not> font_file_loads (probe_host 0) times_new_roman_ttf (font_size_of 64)"
    by simp_all
  have e: "\<exists>img1 im.
      draw_all (probe_host 0) (gradient_calls 64 @ ring_calls 64)
        \<lparr>width = 64, height = 64, pixels = (\<lambda>p. (0, 0, 0, 0))\<rparr> = Inr img1 \<and>
      create_claudius_icon (probe_host 0) 64 = Inr im \<and>
      draw_all (probe_host 0) (dot_calls (probe_host 0) 64)
        (img1\<lparr>pixels :=
           plot (probe_host 0) (Text (29, 25) ''C'' DefaultFont (RGB 212 175 55))
             (img1\<lparr>pixels :=
                plot (probe_host 0) (Text (30, 26) ''C'' DefaultFont (RGBA 20 20 20 200))
                  img1\<rparr>)\<rparr>) = Inr im"
    by (intro exI [of _ img1] exI [of _ im] conjI) (fact 1 2 5)+
  have z: "(0::int) \<le> 64" by simp
  show ?thesis by (intro conjI) (fact n 6 7 4 z b e)+
qed

section \<open>The gradient\<close>





















































































































section \<open>The renderer and the host\<close>



















end
